theory Spec2Isabelle
  imports Main "HOL-Library.Word" "HOL-Library.Signed_Division"
begin

unbundle bit_operations_syntax

section \<open>Data model of the videocrc element (gstvideocrc.c)\<close>

type_synonym u8 = "8 word"
type_synonym u32 = "32 word"
type_synonym gint = "32 word"
type_synonym gsize = "64 word"

text \<open>
  \<open>GstState\<close> is the lifecycle state of the element as \<open>GST_STATE (videocrc)\<close> reads it.
\<close>

datatype GstState =
  GST_STATE_VOID_PENDING | GST_STATE_NULL | GST_STATE_READY | GST_STATE_PAUSED | GST_STATE_PLAYING

text \<open>
  Of the values of \<open>GstFlowReturn\<close>, the success value and the generic failure.
\<close>

datatype GstFlowReturn = GST_FLOW_OK | GST_FLOW_ERROR

text \<open>
  One line \<open>VideoFrame <frame_num> crc <crc>\<close>, kept as the pair of its two arguments.
\<close>

type_synonym frame_record = "int \<times> u32"

text \<open>
  The instance structure \<open>GstVideocrc\<close>. Its declaration (gstvideocrc.h) is not part of the
  sources at hand; the fields are the ones gstvideocrc.c reads and writes.
  \<^item> \<open>crc32bit_table\<close> is the C array of 256 \<open>guint32\<close>, a list indexed from 0;
  \<^item> the geometry fields are \<open>gint\<close>: 32-bit words, read as signed with \<open>sint\<close>, whose
    arithmetic wraps around as the compiled code's does;
  \<^item> the field \<open>size\<close> is \<open>size'\<close> here, \<open>size\<close> being a constant of HOL;
  \<^item> \<open>filename\<close> is a nullable C string, \<open>None\<close> for \<open>NULL\<close>;
  \<^item> \<open>logfile\<close> is the \<open>FILE *\<close>: \<open>None\<close> for \<open>NULL\<close>, otherwise the lines printed to it so far;
  \<^item> \<open>state\<close> is the \<open>GstElement\<close> state the instance inherits.

  Modelled from the spec: the type of \<open>frame_num\<close>, which gstvideocrc.h declares. The spec
  calls it a monotonically increasing frame index that starts at 1, so it is an unbounded
  \<open>int\<close> here.
\<close>

record GstVideocrc =
  crc_mask :: u32
  frame_num :: int
  crc :: u32
  logfile :: "frame_record list option"
  filename :: "string option"
  crc32bit_table :: "u32 list"
  width :: gint
  height :: gint
  stride_w :: gint
  stride_h :: gint
  offset :: gint
  size' :: gint
  state :: GstState

definition GST_VIDEO_DEFAULT_CRC_MASK :: u32 where
  "GST_VIDEO_DEFAULT_CRC_MASK = 0x04C11DB7"

text \<open>\<open>TOPBIT\<close> is \<open>1 << (WIDTH - 1)\<close> with \<open>WIDTH = 8 * sizeof (gint) = 32\<close>.\<close>

definition TOPBIT :: u32 where
  "TOPBIT = push_bit 31 1"

section \<open>The per-byte table update\<close>

text \<open>
  Planar path: \<open>crc_pos = ((guint32) (CRC >> 24) ^ b) & 0xFF; CRC = (CRC << 8) ^ CRC32Table[crc_pos]\<close>.
  Linear path: \<open>CRC = (CRC << 8) ^ CRC32Table[(CRC >> 24) ^ b]\<close>, the index not masked.
\<close>

definition planar_pos :: "u32 \<Rightarrow> u8 \<Rightarrow> u32" where
  "planar_pos c b = (drop_bit 24 c XOR ucast b) AND 0xFF"

definition linear_pos :: "u32 \<Rightarrow> u8 \<Rightarrow> u32" where
  "linear_pos c b = drop_bit 24 c XOR ucast b"

definition planar_update :: "u32 list \<Rightarrow> u32 \<Rightarrow> u8 \<Rightarrow> u32" where
  "planar_update CRC32Table c b = push_bit 8 c XOR CRC32Table ! unat (planar_pos c b)"

definition linear_update :: "u32 list \<Rightarrow> u32 \<Rightarrow> u8 \<Rightarrow> u32" where
  "linear_update CRC32Table c b = push_bit 8 c XOR CRC32Table ! unat (linear_pos c b)"

section \<open>Table generation: \<open>gst_videocrc_init_crc32bit_table\<close>\<close>

text \<open>
  The inner loop \<open>for (j = 0; j < 8; j ++)\<close> over the remainder, and the outer loop
  \<open>for (i = 0; i < 256; i ++)\<close> that stores one entry per index. The counters are
  \<open>unsigned int\<close> and stay below 9 and 257, so they are \<open>nat\<close>.
\<close>

function crc32bit_bits :: "u32 \<Rightarrow> nat \<Rightarrow> u32 \<Rightarrow> u32" where
  "crc32bit_bits polynomial j remainder =
     (if j < 8 then
        crc32bit_bits polynomial (j + 1)
          (if remainder AND TOPBIT \<noteq> 0 then push_bit 1 remainder XOR polynomial
           else push_bit 1 remainder)
      else remainder)"
  by pat_completeness auto
termination
  by (relation "measure (\<lambda>(p, j, r). 8 - j)") auto

declare crc32bit_bits.simps [simp del]

function crc32bit_entries :: "u32 \<Rightarrow> nat \<Rightarrow> u32 list \<Rightarrow> u32 list" where
  "crc32bit_entries polynomial i tbl =
     (if i < 256 then
        crc32bit_entries polynomial (i + 1)
          (tbl[i := crc32bit_bits polynomial 0 (push_bit (32 - 8) (word_of_nat i))])
      else tbl)"
  by pat_completeness auto
termination
  by (relation "measure (\<lambda>(p, i, t). 256 - i)") auto

declare crc32bit_entries.simps [simp del]

definition gst_videocrc_init_crc32bit_table :: "GstVideocrc \<Rightarrow> GstVideocrc" where
  "gst_videocrc_init_crc32bit_table videocrc =
     videocrc\<lparr>crc32bit_table := crc32bit_entries (crc_mask videocrc) 0 (crc32bit_table videocrc)\<rparr>"

definition gst_videocrc_reset :: "GstVideocrc \<Rightarrow> GstVideocrc" where
  "gst_videocrc_reset videocrc =
     videocrc\<lparr>crc_mask := GST_VIDEO_DEFAULT_CRC_MASK, frame_num := 0, crc := 0, logfile := None\<rparr>"

definition gst_videocrc_init :: "GstVideocrc \<Rightarrow> GstVideocrc" where
  "gst_videocrc_init videocrc = gst_videocrc_init_crc32bit_table (gst_videocrc_reset videocrc)"

text \<open>
  The table entry as the specification words it: seed the remainder with the index in the
  most significant byte, then eight times shift left, exclusive-or-ing the polynomial in
  when the top bit was set.
\<close>

definition remainder_step :: "u32 \<Rightarrow> u32 \<Rightarrow> u32" where
  "remainder_step p r = (if bit r 31 then push_bit 1 r XOR p else push_bit 1 r)"

definition table_entry_spec :: "u32 \<Rightarrow> nat \<Rightarrow> u32" where
  "table_entry_spec p i = (remainder_step p ^^ 8) (push_bit 24 (word_of_nat i))"

section \<open>Properties: \<open>gst_videocrc_set_location\<close> and \<open>gst_videocrc_set_property\<close>\<close>

text \<open>
  \<open>gst_videocrc_set_location\<close> returns its \<open>gboolean\<close> with the instance. \<open>location\<close> is a
  nullable string; \<open>g_strdup\<close> stores a copy of it.
\<close>

definition gst_videocrc_set_location :: "GstVideocrc \<Rightarrow> string option \<Rightarrow> bool \<times> GstVideocrc" where
  "gst_videocrc_set_location videocrc location =
     (if state videocrc \<noteq> GST_STATE_READY \<and> state videocrc \<noteq> GST_STATE_NULL
      then (False, videocrc)
      else (True,
            (case location of
               None \<Rightarrow> videocrc\<lparr>filename := None\<rparr>
             | Some s \<Rightarrow> videocrc\<lparr>filename := Some s\<rparr>)))"

text \<open>
  A \<open>GValue\<close> holds a string or an unsigned integer; \<open>g_value_get_string\<close> and
  \<open>g_value_get_uint\<close> return \<open>NULL\<close> and 0 on a value of the other type.
\<close>

datatype GValue = GString "string option" | GUInt u32

fun g_value_get_string :: "GValue \<Rightarrow> string option" where
  "g_value_get_string (GString s) = s"
| "g_value_get_string (GUInt n) = None"

fun g_value_get_uint :: "GValue \<Rightarrow> u32" where
  "g_value_get_uint (GUInt n) = n"
| "g_value_get_uint (GString s) = 0"

definition PROP_0 :: nat where "PROP_0 = 0"
definition PROP_LOCATION :: nat where "PROP_LOCATION = 1"
definition PROP_CRC_MASK :: nat where "PROP_CRC_MASK = 2"

definition gst_videocrc_set_property :: "GstVideocrc \<Rightarrow> nat \<Rightarrow> GValue \<Rightarrow> GstVideocrc" where
  "gst_videocrc_set_property videocrc prop_id v =
     (if prop_id = PROP_LOCATION then snd (gst_videocrc_set_location videocrc (g_value_get_string v))
      else if prop_id = PROP_CRC_MASK then videocrc\<lparr>crc_mask := g_value_get_uint v\<rparr>
      else videocrc)"

section \<open>Format negotiation: \<open>gst_videocrc_set_info\<close>\<close>

text \<open>
  \<open>GstVideoInfo\<close> as far as the element reads it: width and height (\<open>gint\<close>), total size
  and the start offset of each plane (\<open>gsize\<close>; \<open>GST_VIDEO_INFO_PLANE_OFFSET (in_info, 1)\<close> is
  \<open>vi_offset in_info 1\<close>). All four are stored into \<open>gint\<close> locals, which truncates the two
  \<open>gsize\<close> values to 32 bits, and from there into the instance; primed names are the C
  locals of the same name.
\<close>

record GstVideoInfo =
  vi_width :: gint
  vi_height :: gint
  vi_size :: gsize
  vi_offset :: "nat \<Rightarrow> gsize"

text \<open>
  \<open>#define ALIGN( num, to ) (((num) + (to-1)) & (~(to-1)))\<close>, evaluated in \<open>gint\<close>.
\<close>

definition ALIGN :: "gint \<Rightarrow> gint \<Rightarrow> gint" where
  "ALIGN num to = (num + (to - 1)) AND NOT (to - 1)"

definition ALIGN128 :: gint where "ALIGN128 = 128"
definition ALIGN32 :: gint where "ALIGN32 = 32"

definition gst_videocrc_set_info :: "GstVideocrc \<Rightarrow> GstVideoInfo \<Rightarrow> bool \<times> GstVideocrc" where
  "gst_videocrc_set_info videocrc in_info =
     (let width' = vi_width in_info;
          height' = vi_height in_info;
          size'' = (ucast (vi_size in_info) :: gint);
          stride_w' = ALIGN width' ALIGN128;
          stride_h' = ALIGN height' ALIGN32;
          offset' = (ucast (vi_offset in_info 1) :: gint)
      in (True, videocrc\<lparr>width := width', height := height', stride_w := stride_w',
                         stride_h := stride_h', offset := offset', size' := size''\<rparr>))"

section \<open>Frames and the byte view\<close>

text \<open>
  A frame buffer. \<open>ion_meta\<close> is what \<open>gst_buffer_get_ionfd_meta\<close> returns (\<open>None\<close> for
  \<open>NULL\<close>); \<open>mmap_result\<close> is what \<open>mmap (NULL, size, PROT_READ|PROT_WRITE, MAP_SHARED, fd, offset)\<close>
  yields for that descriptor: \<open>None\<close> for \<open>MAP_FAILED\<close>, otherwise the bytes of the mapped
  region, whose length is the size of the region; \<open>map_data\<close> is the region
  \<open>gst_buffer_map\<close> exposes, \<open>map_info.data[0 .. map_info.size)\<close>. The fields \<open>fd\<close>,
  \<open>size\<close>, \<open>offset\<close> of the meta carry the prefix \<open>ion_\<close>.
\<close>

record GstIonBufFdMeta =
  ion_fd :: int
  ion_size :: nat
  ion_offset :: nat

record GstBuffer =
  ion_meta :: "GstIonBufFdMeta option"
  mmap_result :: "u8 list option"
  map_data :: "u8 list"

text \<open>
  The C code dereferences \<open>buf_ptr\<close> unchecked, at the signed value of the \<open>gint\<close> index. A
  read outside the mapped region, or through the pointer of a failed mapping, is undefined
  behaviour; the model stops there with a fault that names the offset.
\<close>

datatype fault = OutOfRange int | BadMapping int

definition peek :: "u8 list option \<Rightarrow> int \<Rightarrow> fault + u8" where
  "peek buf_ptr off =
     (case buf_ptr of
        None \<Rightarrow> Inl (BadMapping off)
      | Some bytes \<Rightarrow>
          if 0 \<le> off \<and> off < int (length bytes) then Inr (bytes ! nat off)
          else Inl (OutOfRange off))"

text \<open>
  The running state of one checksum computation: the accumulator \<open>CRC\<close> and, as a record of
  the access pattern, every offset of \<open>buf_ptr\<close> read so far with the variable it was loaded
  into (\<open>LumaPixVal1\<close>/\<open>LumaPixVal2\<close>, \<open>CbPixVal\<close>, \<open>CrPixVal\<close>).
\<close>

datatype sample = Luma | Cb | Cr

record crc_run =
  CRC :: u32
  reads :: "(sample \<times> int) list"

definition feed :: "u32 list \<Rightarrow> sample \<Rightarrow> int \<Rightarrow> u8 \<Rightarrow> crc_run \<Rightarrow> crc_run" where
  "feed CRC32Table s off b r =
     \<lparr>CRC = planar_update CRC32Table (CRC r) b, reads = reads r @ [(s, off)]\<rparr>"

definition complement :: "crc_run \<Rightarrow> crc_run" where
  "complement r = r\<lparr>CRC := NOT (CRC r)\<rparr>"

section \<open>The planar traversal of \<open>gst_videocrc_transform_frame_ip\<close>\<close>

text \<open>
  The counters \<open>i\<close>, \<open>j\<close>, \<open>k\<close> and every index expression are \<open>gint\<close>: \<open>+\<close> and \<open>*\<close> wrap,
  \<open><s\<close> compares signed values, \<open>width >> 1\<close> is the arithmetic shift
  \<open>signed_drop_bit 1\<close>, and \<open>height / 2\<close> truncates towards zero.
\<close>

definition gint_div :: "gint \<Rightarrow> gint \<Rightarrow> gint" where
  "gint_div a b = word_of_int (sint a sdiv sint b)"

text \<open>
  Luma: \<open>for (j = 0, k = 0; j < width >> 1; j++)\<close> reads \<open>buf_ptr[i * stride_w + k++]\<close> twice and
  feeds both bytes; \<open>for (i = 0; i < height; i++)\<close> runs it for every row.
\<close>

function luma_cols ::
  "u32 list \<Rightarrow> u8 list option \<Rightarrow> gint \<Rightarrow> gint \<Rightarrow> gint \<Rightarrow> gint \<Rightarrow> gint \<Rightarrow> crc_run \<Rightarrow> fault + crc_run" where
  "luma_cols T buf_ptr width' stride_w' i j k r =
     (if j <s signed_drop_bit 1 width' then
        (case peek buf_ptr (sint (i * stride_w' + k)) of
           Inl e \<Rightarrow> Inl e
         | Inr LumaPixVal1 \<Rightarrow>
            (case peek buf_ptr (sint (i * stride_w' + (k + 1))) of
               Inl e \<Rightarrow> Inl e
             | Inr LumaPixVal2 \<Rightarrow>
                 luma_cols T buf_ptr width' stride_w' i (j + 1) (k + 2)
                   (feed T Luma (sint (i * stride_w' + (k + 1))) LumaPixVal2
                      (feed T Luma (sint (i * stride_w' + k)) LumaPixVal1 r))))
      else Inr r)"
  by pat_completeness auto
termination
proof (relation "measure (\<lambda>(T, b, w, sw, i, j, k, r). nat (sint (signed_drop_bit 1 w) - sint j))", goal_cases)
  case 1
  show ?case by simp
next
  case (2 T buf_ptr width' stride_w' i j k r b ba)
  from 2(1) have lt: "sint j < sint (signed_drop_bit 1 width')"
    by (simp add: word_sless_alt)
  have "sint (signed_drop_bit 1 width') < 2 ^ 31"
    using sint_lt [of "signed_drop_bit 1 width'"] by simp
  moreover have "- (2 ^ 31) \<le> sint j"
    using sint_ge [of j] by simp
  ultimately have "signed_take_bit 31 (sint j + 1) = sint j + 1"
    using lt by (intro signed_take_bit_int_eq_self) simp_all
  then have "sint (j + 1) = sint j + 1"
    by (simp add: sint_word_ariths)
  then show ?case using lt by simp
qed

declare luma_cols.simps [simp del]

function luma_rows ::
  "u32 list \<Rightarrow> u8 list option \<Rightarrow> gint \<Rightarrow> gint \<Rightarrow> gint \<Rightarrow> gint \<Rightarrow> crc_run \<Rightarrow> fault + crc_run" where
  "luma_rows T buf_ptr width' height' stride_w' i r =
     (if i <s height' then
        (case luma_cols T buf_ptr width' stride_w' i 0 0 r of
           Inl e \<Rightarrow> Inl e
         | Inr r' \<Rightarrow> luma_rows T buf_ptr width' height' stride_w' (i + 1) r')
      else Inr r)"
  by pat_completeness auto
termination
proof (relation "measure (\<lambda>(T, b, w, h, sw, i, r). nat (sint h - sint i))", goal_cases)
  case 1
  show ?case by simp
next
  case (2 T buf_ptr width' height' stride_w' i r b)
  from 2(1) have lt: "sint i < sint (height')"
    by (simp add: word_sless_alt)
  have "sint (height') < 2 ^ 31"
    using sint_lt [of "height'"] by simp
  moreover have "- (2 ^ 31) \<le> sint i"
    using sint_ge [of i] by simp
  ultimately have "signed_take_bit 31 (sint i + 1) = sint i + 1"
    using lt by (intro signed_take_bit_int_eq_self) simp_all
  then have "sint (i + 1) = sint i + 1"
    by (simp add: sint_word_ariths)
  then show ?case using lt by simp
qed

declare luma_rows.simps [simp del]

text \<open>
  Chroma U: \<open>for (j = 0; j < width; j += 2)\<close> reads
  \<open>buf_ptr[stride_w * stride_h + i * stride_w + j]\<close>, for every row \<open>i < height / 2\<close>.
\<close>

function cb_cols ::
  "u32 list \<Rightarrow> u8 list option \<Rightarrow> gint \<Rightarrow> gint \<Rightarrow> gint \<Rightarrow> gint \<Rightarrow> gint \<Rightarrow> crc_run \<Rightarrow> fault + crc_run" where
  "cb_cols T buf_ptr width' stride_w' stride_h' i j r =
     (if j <s width' then
        (case peek buf_ptr (sint (stride_w' * stride_h' + i * stride_w' + j)) of
           Inl e \<Rightarrow> Inl e
         | Inr CbPixVal \<Rightarrow>
             cb_cols T buf_ptr width' stride_w' stride_h' i (j + 2)
               (feed T Cb (sint (stride_w' * stride_h' + i * stride_w' + j)) CbPixVal r))
      else Inr r)"
  by pat_completeness auto
termination
proof (relation "measure (\<lambda>(T, b, w, sw, sh, i, j, r).
         if sint (sw * sh + i * sw + j) < 0 then 0
         else nat (2 ^ 31 + 2 - sint (sw * sh + i * sw + j)))", goal_cases)
  case 1
  show ?case by simp
next
  case (2 T buf_ptr width' stride_w' stride_h' i j r b)
  let ?x = "stride_w' * stride_h' + i * stride_w' + j"
  from 2(2) have n: "0 \<le> sint ?x"
    by (auto simp: peek_def split: option.splits if_splits)
  have u: "sint ?x < 2 ^ 31" using sint_lt [of ?x] by simp
  have e: "sint (stride_w' * stride_h' + i * stride_w' + (j + 2)) = sint (?x + 2)"
    by (simp add: add.assoc)
  have p: "sint (y + 2) = sint y + 2 \<or> sint (y + 2) < 0" if y: "0 \<le> sint y" for y :: gint
  proof (cases "sint y + 2 < 2 ^ 31")
    case True
    with y have "signed_take_bit 31 (sint y + 2) = sint y + 2"
      by (intro signed_take_bit_int_eq_self) simp_all
    then show ?thesis by (simp add: sint_word_ariths)
  next
    case False
    have "sint y < 2 ^ 31" using sint_lt [of y] by simp
    moreover from False have "2 ^ 31 \<le> sint y + 2" by simp
    then have "signed_take_bit 31 (sint y + 2) \<le> sint y + 2 - 2 ^ Suc 31"
      by (rule signed_take_bit_int_less_eq)
    moreover have "(2 :: int) ^ Suc 31 = 4294967296" "(2 :: int) ^ 31 = 2147483648" by simp_all
    ultimately have "signed_take_bit 31 (sint y + 2) < 0" by linarith
    then show ?thesis by (simp add: sint_word_ariths)
  qed
  from p [OF n] n u show ?case by (auto simp only: e in_measure prod.case split: if_splits)
qed

declare cb_cols.simps [simp del]

function cb_rows ::
  "u32 list \<Rightarrow> u8 list option \<Rightarrow> gint \<Rightarrow> gint \<Rightarrow> gint \<Rightarrow> gint \<Rightarrow> gint \<Rightarrow> crc_run \<Rightarrow> fault + crc_run" where
  "cb_rows T buf_ptr width' height' stride_w' stride_h' i r =
     (if i <s gint_div height' 2 then
        (case cb_cols T buf_ptr width' stride_w' stride_h' i 0 r of
           Inl e \<Rightarrow> Inl e
         | Inr r' \<Rightarrow> cb_rows T buf_ptr width' height' stride_w' stride_h' (i + 1) r')
      else Inr r)"
  by pat_completeness auto
termination
proof (relation "measure (\<lambda>(T, b, w, h, sw, sh, i, r). nat (sint (gint_div h 2) - sint i))", goal_cases)
  case 1
  show ?case by simp
next
  case (2 T buf_ptr width' height' stride_w' stride_h' i r b)
  from 2(1) have lt: "sint i < sint (gint_div height' 2)"
    by (simp add: word_sless_alt)
  have "sint (gint_div height' 2) < 2 ^ 31"
    using sint_lt [of "gint_div height' 2"] by simp
  moreover have "- (2 ^ 31) \<le> sint i"
    using sint_ge [of i] by simp
  ultimately have "signed_take_bit 31 (sint i + 1) = sint i + 1"
    using lt by (intro signed_take_bit_int_eq_self) simp_all
  then have "sint (i + 1) = sint i + 1"
    by (simp add: sint_word_ariths)
  then show ?case using lt by simp
qed

declare cb_rows.simps [simp del]

text \<open>Chroma V: the same loops, reading \<open>buf_ptr[stride_w * stride_h + i * stride_w + j + 1]\<close>.\<close>

function cr_cols ::
  "u32 list \<Rightarrow> u8 list option \<Rightarrow> gint \<Rightarrow> gint \<Rightarrow> gint \<Rightarrow> gint \<Rightarrow> gint \<Rightarrow> crc_run \<Rightarrow> fault + crc_run" where
  "cr_cols T buf_ptr width' stride_w' stride_h' i j r =
     (if j <s width' then
        (case peek buf_ptr (sint (stride_w' * stride_h' + i * stride_w' + j + 1)) of
           Inl e \<Rightarrow> Inl e
         | Inr CrPixVal \<Rightarrow>
             cr_cols T buf_ptr width' stride_w' stride_h' i (j + 2)
               (feed T Cr (sint (stride_w' * stride_h' + i * stride_w' + j + 1)) CrPixVal r))
      else Inr r)"
  by pat_completeness auto
termination
proof (relation "measure (\<lambda>(T, b, w, sw, sh, i, j, r).
         if sint (sw * sh + i * sw + j + 1) < 0 then 0
         else nat (2 ^ 31 + 2 - sint (sw * sh + i * sw + j + 1)))", goal_cases)
  case 1
  show ?case by simp
next
  case (2 T buf_ptr width' stride_w' stride_h' i j r b)
  let ?x = "stride_w' * stride_h' + i * stride_w' + j + 1"
  from 2(2) have n: "0 \<le> sint ?x"
    by (auto simp: peek_def split: option.splits if_splits)
  have u: "sint ?x < 2 ^ 31" using sint_lt [of ?x] by simp
  have e: "sint (stride_w' * stride_h' + i * stride_w' + (j + 2) + 1) = sint (?x + 2)"
    by (simp add: add.assoc)
  have p: "sint (y + 2) = sint y + 2 \<or> sint (y + 2) < 0" if y: "0 \<le> sint y" for y :: gint
  proof (cases "sint y + 2 < 2 ^ 31")
    case True
    with y have "signed_take_bit 31 (sint y + 2) = sint y + 2"
      by (intro signed_take_bit_int_eq_self) simp_all
    then show ?thesis by (simp add: sint_word_ariths)
  next
    case False
    have "sint y < 2 ^ 31" using sint_lt [of y] by simp
    moreover from False have "2 ^ 31 \<le> sint y + 2" by simp
    then have "signed_take_bit 31 (sint y + 2) \<le> sint y + 2 - 2 ^ Suc 31"
      by (rule signed_take_bit_int_less_eq)
    moreover have "(2 :: int) ^ Suc 31 = 4294967296" "(2 :: int) ^ 31 = 2147483648" by simp_all
    ultimately have "signed_take_bit 31 (sint y + 2) < 0" by linarith
    then show ?thesis by (simp add: sint_word_ariths)
  qed
  from p [OF n] n u show ?case by (auto simp only: e in_measure prod.case split: if_splits)
qed

declare cr_cols.simps [simp del]

function cr_rows ::
  "u32 list \<Rightarrow> u8 list option \<Rightarrow> gint \<Rightarrow> gint \<Rightarrow> gint \<Rightarrow> gint \<Rightarrow> gint \<Rightarrow> crc_run \<Rightarrow> fault + crc_run" where
  "cr_rows T buf_ptr width' height' stride_w' stride_h' i r =
     (if i <s gint_div height' 2 then
        (case cr_cols T buf_ptr width' stride_w' stride_h' i 0 r of
           Inl e \<Rightarrow> Inl e
         | Inr r' \<Rightarrow> cr_rows T buf_ptr width' height' stride_w' stride_h' (i + 1) r')
      else Inr r)"
  by pat_completeness auto
termination
proof (relation "measure (\<lambda>(T, b, w, h, sw, sh, i, r). nat (sint (gint_div h 2) - sint i))", goal_cases)
  case 1
  show ?case by simp
next
  case (2 T buf_ptr width' height' stride_w' stride_h' i r b)
  from 2(1) have lt: "sint i < sint (gint_div height' 2)"
    by (simp add: word_sless_alt)
  have "sint (gint_div height' 2) < 2 ^ 31"
    using sint_lt [of "gint_div height' 2"] by simp
  moreover have "- (2 ^ 31) \<le> sint i"
    using sint_ge [of i] by simp
  ultimately have "signed_take_bit 31 (sint i + 1) = sint i + 1"
    using lt by (intro signed_take_bit_int_eq_self) simp_all
  then have "sint (i + 1) = sint i + 1"
    by (simp add: sint_word_ariths)
  then show ?case using lt by simp
qed

declare cr_rows.simps [simp del]

text \<open>
  The body of \<open>if (ion_meta) { ... }\<close> after the mapping: \<open>CRC\<close> starts at 0, the three passes
  run in the order luma, U, V, and \<open>CRC = ~CRC\<close> follows each of them. It reads the table and
  the geometry from the instance, as the locals \<open>CRC32Table\<close>, \<open>width\<close>, \<open>height\<close>,
  \<open>stride_w\<close>, \<open>stride_h\<close> do.
\<close>

definition ion_checksum :: "GstVideocrc \<Rightarrow> u8 list option \<Rightarrow> fault + crc_run" where
  "ion_checksum videocrc buf_ptr =
     (let T = crc32bit_table videocrc;
          width' = width videocrc; height' = height videocrc;
          stride_w' = stride_w videocrc; stride_h' = stride_h videocrc
      in case luma_rows T buf_ptr width' height' stride_w' 0 \<lparr>CRC = 0, reads = []\<rparr> of
           Inl e \<Rightarrow> Inl e
         | Inr r1 \<Rightarrow>
            (case cb_rows T buf_ptr width' height' stride_w' stride_h' 0 (complement r1) of
               Inl e \<Rightarrow> Inl e
             | Inr r2 \<Rightarrow>
                (case cr_rows T buf_ptr width' height' stride_w' stride_h' 0 (complement r2) of
                   Inl e \<Rightarrow> Inl e
                 | Inr r3 \<Rightarrow> Inr (complement r3))))"

section \<open>The linear traversal\<close>

text \<open>
  \<open>for (i = 0; i < map_info.size; i++) CRC = (CRC << 8) ^ CRC32Table[(CRC >> 24) ^ map_info.data[i]]\<close>,
  then \<open>CRC = ~CRC\<close>. The counter \<open>i\<close> is a \<open>gint\<close> and \<open>map_info.size\<close> a \<open>gsize\<close>: the
  comparison converts \<open>i\<close> to \<open>gsize\<close> (\<open>scast\<close>) and is unsigned; \<open>map_info.data[i]\<close> is read at
  the signed value of \<open>i\<close>.
\<close>

function linear_bytes :: "u32 list \<Rightarrow> u8 list \<Rightarrow> gint \<Rightarrow> u32 \<Rightarrow> fault + u32" where
  "linear_bytes T data i c =
     (if (scast i :: gsize) < word_of_nat (length data) then
        (case peek (Some data) (sint i) of
           Inl e \<Rightarrow> Inl e
         | Inr b \<Rightarrow> linear_bytes T data (i + 1) (linear_update T c b))
      else Inr c)"
  by pat_completeness auto
termination
proof (relation "measure (\<lambda>(T, d, i, c). unat (NOT i))", goal_cases)
  case 1
  show ?case by simp
next
  case (2 T data i c b)
  have "i \<noteq> - 1"
  proof
    assume "i = - 1"
    with 2(1) have "(- 1 :: gsize) < word_of_nat (length data)" by simp
    moreover have "(word_of_nat (length data) :: gsize) \<le> - 1" by simp
    ultimately show False by simp
  qed
  then have n: "NOT i \<noteq> 0" by (metis bit.compl_zero bit.double_compl)
  have "NOT (i + 1) = NOT i - 1" by (simp add: not_eq_complement)
  then have "unat (NOT (i + 1)) < unat (NOT i)"
    using n by (simp add: unat_minus_one unat_gt_0)
  then show ?case by simp
qed

declare linear_bytes.simps [simp del]

definition linear_checksum :: "GstVideocrc \<Rightarrow> u8 list \<Rightarrow> fault + u32" where
  "linear_checksum videocrc data =
     (case linear_bytes (crc32bit_table videocrc) data 0 0 of
        Inl e \<Rightarrow> Inl e
      | Inr c \<Rightarrow> Inr (NOT c))"

section \<open>Per-frame processing: \<open>gst_videocrc_transform_frame_ip\<close>\<close>

text \<open>
  The function returns its \<open>GstFlowReturn\<close>, the record it prints with \<open>GST_INFO_OBJECT\<close> and
  the instance; a fault of a traversal ends it without a return value.
\<close>

definition gst_videocrc_transform_frame_ip ::
  "GstVideocrc \<Rightarrow> GstBuffer \<Rightarrow> fault + (GstFlowReturn \<times> frame_record \<times> GstVideocrc)" where
  "gst_videocrc_transform_frame_ip videocrc0 buf =
     (let videocrc = videocrc0\<lparr>crc := 0\<rparr>;
          computed =
            (case ion_meta buf of
               Some m \<Rightarrow>
                 (case ion_checksum videocrc (mmap_result buf) of
                    Inl e \<Rightarrow> Inl e
                  | Inr r \<Rightarrow> Inr (CRC r))
             | None \<Rightarrow> linear_checksum videocrc (map_data buf))
      in case computed of
           Inl e \<Rightarrow> Inl e
         | Inr c \<Rightarrow>
             (let videocrc = videocrc\<lparr>crc := c\<rparr>;
                  videocrc = videocrc\<lparr>frame_num := frame_num videocrc + 1\<rparr>;
                  line = (frame_num videocrc, crc videocrc);
                  videocrc =
                    (case logfile videocrc of
                       None \<Rightarrow> videocrc
                     | Some printed \<Rightarrow> videocrc\<lparr>logfile := Some (printed @ [line])\<rparr>)
              in Inr (GST_FLOW_OK, line, videocrc)))"

text \<open>Frames are processed one after the other; the first fault ends the run.\<close>

fun process_frames ::
  "GstVideocrc \<Rightarrow> GstBuffer list \<Rightarrow> fault + (frame_record list \<times> GstVideocrc)" where
  "process_frames videocrc [] = Inr ([], videocrc)"
| "process_frames videocrc (buf # bufs) =
     (case gst_videocrc_transform_frame_ip videocrc buf of
        Inl e \<Rightarrow> Inl e
      | Inr (ret, line, videocrc') \<Rightarrow>
          (case process_frames videocrc' bufs of
             Inl e \<Rightarrow> Inl e
           | Inr (printed, videocrc'') \<Rightarrow> Inr (line # printed, videocrc'')))"

section \<open>Auxiliary definitions for the statements\<close>

text \<open>
  Reading a list of offsets in order, feeding each byte: what one pass of the traversal does
  once its loops are unrolled into the offsets they visit.
\<close>

primrec scan :: "u32 list \<Rightarrow> u8 list option \<Rightarrow> sample \<Rightarrow> int list \<Rightarrow> crc_run \<Rightarrow> fault + crc_run" where
  "scan T buf_ptr s [] r = Inr r"
| "scan T buf_ptr s (off # offs) r =
     (case peek buf_ptr off of
        Inl e \<Rightarrow> Inl e
      | Inr b \<Rightarrow> scan T buf_ptr s offs (feed T s off b r))"

text \<open>
  The offsets the loops visit, in closed form over the integers, for a width and a height that
  are not negative and while no \<open>gint\<close> computation overflows. Luma: rows \<open>0
  \<le> i < height\<close>, and in each row the pairs \<open>2 * j\<close>, \<open>2 * j +
  1\<close> for \<open>0 \<le> j < width >> 1\<close>. Chroma: rows \<open>0 \<le> i < height
  / 2\<close>, and in each row the even columns \<open>0 \<le> j < width\<close>, from the
  base \<open>stride_w * stride_h\<close>.
\<close>

definition luma_row_offsets :: "int \<Rightarrow> int \<Rightarrow> int \<Rightarrow> int list" where
  "luma_row_offsets W SW i =
     concat (map (\<lambda>j. [i * SW + 2 * j, i * SW + 2 * j + 1]) [0..W div 2 - 1])"

definition luma_offsets :: "int \<Rightarrow> int \<Rightarrow> int \<Rightarrow> int list" where
  "luma_offsets W H SW = concat (map (luma_row_offsets W SW) [0..H - 1])"

definition even_columns :: "int \<Rightarrow> int list" where
  "even_columns W = filter even [0..W - 1]"

definition cb_offsets :: "int \<Rightarrow> int \<Rightarrow> int \<Rightarrow> int \<Rightarrow> int list" where
  "cb_offsets W H SW SH =
     concat (map (\<lambda>i. map (\<lambda>j. SW * SH + i * SW + j) (even_columns W)) [0..H div 2 - 1])"

definition cr_offsets :: "int \<Rightarrow> int \<Rightarrow> int \<Rightarrow> int \<Rightarrow> int list" where
  "cr_offsets W H SW SH =
     concat (map (\<lambda>i. map (\<lambda>j. SW * SH + i * SW + j + 1) (even_columns W)) [0..H div 2 - 1])"

text \<open>
  The geometry of an instance is in range: width and height are not negative,
  \<open>stride_w\<close> is even and not below the width, \<open>stride_h\<close> is not
  below the height, and the padded frame of \<open>stride_w * (stride_h + height / 2)\<close>
  bytes, which bounds every offset of the traversal, is below \<open>2^31\<close>, so that
  every index expression of the loops has its integer value.
\<close>

definition planar_extent :: "GstVideocrc \<Rightarrow> int" where
  "planar_extent v = sint (stride_w v) * (sint (stride_h v) + sint (height v) div 2)"

definition planar_fits :: "GstVideocrc \<Rightarrow> bool" where
  "planar_fits v =
     (0 \<le> sint (width v) \<and> 0 \<le> sint (height v) \<and> sint (width v) \<le> sint (stride_w v) \<and>
      even (sint (stride_w v)) \<and> sint (height v) \<le> sint (stride_h v) \<and>
      planar_extent v < 2 ^ 31)"

text \<open>
  An offset lies inside the mapped view.
\<close>

definition in_view :: "u8 list \<Rightarrow> int \<Rightarrow> bool" where
  "in_view view off = (0 \<le> off \<and> off < int (length view))"

text \<open>
  The table update applied to a sequence of bytes, and the bytes a view holds at a list of
  offsets.
\<close>

definition table_updates :: "u32 list \<Rightarrow> u8 list \<Rightarrow> u32 \<Rightarrow> u32" where
  "table_updates T bytes c = fold (\<lambda>b c. planar_update T c b) bytes c"

definition bytes_at :: "u8 list \<Rightarrow> int list \<Rightarrow> u8 list" where
  "bytes_at view offs = map (\<lambda>off. view ! nat off) offs"

text \<open>
  The offsets a run has loaded into the variable of one sample kind, in order.
\<close>

definition offsets_of :: "sample \<Rightarrow> crc_run \<Rightarrow> int list" where
  "offsets_of s r = map snd (filter (\<lambda>p. fst p = s) (reads r))"

text \<open>
  The offsets of the three passes for the geometry of an instance, and the cascade of the
  three passes over the bytes read.
\<close>

definition luma_of :: "GstVideocrc \<Rightarrow> int list" where
  "luma_of v = luma_offsets (sint (width v)) (sint (height v)) (sint (stride_w v))"

definition cb_of :: "GstVideocrc \<Rightarrow> int list" where
  "cb_of v = cb_offsets (sint (width v)) (sint (height v)) (sint (stride_w v)) (sint (stride_h v))"

definition cr_of :: "GstVideocrc \<Rightarrow> int list" where
  "cr_of v = cr_offsets (sint (width v)) (sint (height v)) (sint (stride_w v)) (sint (stride_h v))"

definition cascade :: "u32 list \<Rightarrow> u8 list \<Rightarrow> u8 list \<Rightarrow> u8 list \<Rightarrow> u32" where
  "cascade T luma cb cr =
     NOT (table_updates T cr (NOT (table_updates T cb (NOT (table_updates T luma 0)))))"

text \<open>
  The checksum of the linear path over a sequence of bytes.
\<close>

definition linear_crc :: "u32 list \<Rightarrow> u8 list \<Rightarrow> u32" where
  "linear_crc T data = NOT (fold (\<lambda>b c. linear_update T c b) data 0)"

text \<open>
  The instance after a frame with checksum \<open>c\<close> was recorded: checksum stored,
  counter incremented, line appended to the log file if one is open.
\<close>

definition emitted :: "GstVideocrc \<Rightarrow> u32 \<Rightarrow> GstVideocrc" where
  "emitted v c =
     v\<lparr>crc := c, frame_num := frame_num v + 1,
       logfile := map_option (\<lambda>printed. printed @ [(frame_num v + 1, c)]) (logfile v)\<rparr>"

text \<open>
  Rounding up to a multiple, and the size of the padded frame for a width and a height:
  \<open>stride_w * (stride_h + height / 2)\<close> with the width rounded up to 128 and the
  height to 32.
\<close>

definition round_up :: "int \<Rightarrow> int \<Rightarrow> int" where
  "round_up n a = a * ((n + (a - 1)) div a)"

definition padded_extent :: "int \<Rightarrow> int \<Rightarrow> int" where
  "padded_extent W H = round_up W 128 * (round_up H 32 + H div 2)"

text \<open>
  Example inputs. \<open>zeroed_instance\<close> is the zero-filled instance memory the
  constructor \<open>gst_videocrc_init\<close> receives; \<open>nv12_info w h\<close> is the
  video info of an NV12 frame in the default layout (rows padded to 4 bytes, the second plane
  after an even number of rows); \<open>negotiated w h\<close> is the constructed instance
  after that format was negotiated.
\<close>

definition zeroed_instance :: GstVideocrc where
  "zeroed_instance =
     \<lparr>crc_mask = 0, frame_num = 0, crc = 0, logfile = None, filename = None,
      crc32bit_table = replicate 256 0, width = 0, height = 0, stride_w = 0, stride_h = 0,
      offset = 0, size' = 0, state = GST_STATE_NULL\<rparr>"

definition nv12_info :: "gint \<Rightarrow> gint \<Rightarrow> GstVideoInfo" where
  "nv12_info w h =
     \<lparr>vi_width = w, vi_height = h,
      vi_size = word_of_int ((4 * ((sint w + 3) div 4)) * (2 * ((sint h + 1) div 2))
                  + (4 * ((sint w + 3) div 4)) * ((sint h + 1) div 2)),
      vi_offset = (\<lambda>p. if p = 1 then word_of_int ((4 * ((sint w + 3) div 4)) * (2 * ((sint h + 1) div 2)))
                         else 0)\<rparr>"

definition negotiated :: "gint \<Rightarrow> gint \<Rightarrow> GstVideocrc" where
  "negotiated w h = snd (gst_videocrc_set_info (gst_videocrc_init zeroed_instance) (nv12_info w h))"

text \<open>
  Frames: a hardware-backed frame whose mapping holds 6144 zero bytes, one whose mapping
  failed, and frames without hardware-buffer metadata.
\<close>

definition zero_frame :: GstBuffer where
  "zero_frame =
     \<lparr>ion_meta = Some \<lparr>ion_fd = 3, ion_size = 6144, ion_offset = 0\<rparr>,
      mmap_result = Some (replicate 6144 0), map_data = []\<rparr>"

definition unmapped_frame :: GstBuffer where
  "unmapped_frame =
     \<lparr>ion_meta = Some \<lparr>ion_fd = 3, ion_size = 6144, ion_offset = 0\<rparr>,
      mmap_result = None, map_data = []\<rparr>"

definition linear_frame :: "u8 list \<Rightarrow> GstBuffer" where
  "linear_frame bytes = \<lparr>ion_meta = None, mmap_result = None, map_data = bytes\<rparr>"

text \<open>
  A frame the instance can process: on the linear path a region of fewer than
  \<open>2^31\<close> bytes, so that the \<open>gint\<close> counter reaches its size; on the
  hardware-backed path a geometry in range and either a mapped view that holds the padded
  frame, or a failed mapping and a traversal that reads no byte.
\<close>

definition frame_fits :: "GstVideocrc \<Rightarrow> GstBuffer \<Rightarrow> bool" where
  "frame_fits v buf =
     (case ion_meta buf of
        None \<Rightarrow> length (map_data buf) < 2 ^ 31
      | Some m \<Rightarrow>
          planar_fits v \<and>
          (case mmap_result buf of
             None \<Rightarrow> luma_of v @ cb_of v @ cr_of v = []
           | Some view \<Rightarrow> planar_extent v \<le> int (length view)))"

section \<open>Verification\<close>

subsection \<open>Signed values of \<open>gint\<close> expressions\<close>

text \<open>
  The signed value of a \<open>gint\<close> expression is the integer expression while that
  stays in range; the loop guards and \<open>height / 2\<close> in terms of signed values.
\<close>

lemma sint_lift:
  "(y :: gint) = word_of_int x \<Longrightarrow> - (2 ^ 31) \<le> x \<Longrightarrow> x < 2 ^ 31 \<Longrightarrow> sint y = x"
  by (simp add: signed_of_int signed_take_bit_int_eq_self)

lemma sint_mul_add:
  "- (2 ^ 31) \<le> sint a * sint b + sint c \<Longrightarrow> sint a * sint b + sint c < 2 ^ 31 \<Longrightarrow>
   sint (a * b + c :: gint) = sint a * sint b + sint c"
  by (rule sint_lift) simp_all

lemma sint_add_nat:
  "sint c + int n < 2 ^ 31 \<Longrightarrow> sint (c + word_of_nat n :: gint) = sint c + int n"
proof (rule sint_lift)
  show "c + word_of_nat n = word_of_int (sint c + int n)" by simp
  have "- (2 ^ 31) \<le> sint c" using sint_ge [of c] by simp
  then show "- (2 ^ 31) \<le> sint c + int n" by simp
qed

lemma sint_add1: "sint c + 1 < 2 ^ 31 \<Longrightarrow> sint (c + 1 :: gint) = sint c + 1"
  using sint_add_nat [of c 1] by simp

lemma sint_add2: "sint c + 2 < 2 ^ 31 \<Longrightarrow> sint (c + 2 :: gint) = sint c + 2"
  using sint_add_nat [of c 2] by simp

lemma sint_chroma:
  "0 \<le> sint a * sint b \<Longrightarrow> 0 \<le> sint c * sint d \<Longrightarrow> 0 \<le> sint e \<Longrightarrow>
   sint a * sint b + sint c * sint d + sint e < 2 ^ 31 \<Longrightarrow>
   sint (a * b + c * d + e :: gint) = sint a * sint b + sint c * sint d + sint e"
  by (rule sint_lift) simp_all

lemma sless_sint: "(a <s b) = (sint a < sint b)"
  by (simp add: word_sless_alt)

lemma sint_shift1: "sint (signed_drop_bit 1 (w :: gint)) = sint w div 2"
  by (simp add: sint_signed_drop_bit_eq drop_bit_eq_div)

lemma guard_shift: "(j <s signed_drop_bit 1 w) = (sint j < sint (w :: gint) div 2)"
  unfolding sless_sint sint_shift1 by (rule refl)

lemma sint_div2: "sint (gint_div h 2) = sint h sdiv 2"
proof -
  have "- (2 ^ 31) \<le> sint h" "sint h < 2 ^ 31" using sint_ge [of h] sint_lt [of h] by simp_all
  then have "- (2 ^ 31) \<le> sint h sdiv 2" "sint h sdiv 2 < 2 ^ 31"
    by (simp_all add: signed_divide_int_def sgn_if) linarith+
  then show ?thesis unfolding gint_div_def by (intro sint_lift) simp_all
qed

subsection \<open>The planar traversal as a sequence of reads\<close>

text \<open>
  Each loop of the planar traversal equals \<open>scan\<close> over the offsets it visits,
  while its index expressions stay in range.
\<close>

lemma scan_append:
  "scan T b s (xs @ ys) r = (case scan T b s xs r of Inl e \<Rightarrow> Inl e | Inr r' \<Rightarrow> scan T b s ys r')"
  by (induction xs arbitrary: r) (auto split: sum.splits)

lemma luma_cols_step:
  "j <s signed_drop_bit 1 w \<Longrightarrow> luma_cols T b w sw i j k r =
     (case peek b (sint (i * sw + k)) of
        Inl e \<Rightarrow> Inl e
      | Inr p1 \<Rightarrow>
         (case peek b (sint (i * sw + (k + 1))) of
            Inl e \<Rightarrow> Inl e
          | Inr p2 \<Rightarrow>
              luma_cols T b w sw i (j + 1) (k + 2)
                (feed T Luma (sint (i * sw + (k + 1))) p2 (feed T Luma (sint (i * sw + k)) p1 r))))"
  by (subst luma_cols.simps) (simp only: if_True)

lemma luma_cols_done: "\<not> j <s signed_drop_bit 1 w \<Longrightarrow> luma_cols T b w sw i j k r = Inr r"
  by (subst luma_cols.simps) (simp only: if_False)

lemma luma_cols_scan:
  assumes "0 \<le> sint i" "0 \<le> sint sw" "sint i * sint sw + sint w < 2 ^ 31"
    and "0 \<le> sint j" "sint k = 2 * sint j"
  shows "luma_cols T b w sw i j k r =
   scan T b Luma (concat (map (\<lambda>j'. [sint i * sint sw + 2 * j', sint i * sint sw + 2 * j' + 1])
                              [sint j..sint w div 2 - 1])) r"
  using assms(4,5)
proof (induction "nat (sint w div 2 - sint j)" arbitrary: j k r)
  case 0
  then have n: "\<not> j <s signed_drop_bit 1 w" unfolding guard_shift by simp
  from 0 have "[sint j..sint w div 2 - 1] = []" by simp
  then show ?case by (simp add: luma_cols_done [OF n])
next
  case (Suc n)
  then have lt: "sint j < sint w div 2" by simp
  then have g: "j <s signed_drop_bit 1 w" unfolding guard_shift by simp
  have p: "0 \<le> sint i * sint sw" using assms(1,2) by simp
  have kw: "sint k + 2 \<le> sint w" using lt Suc.prems(2) by linarith
  have k0: "0 \<le> sint k" using Suc.prems by simp
  have o1: "sint (i * sw + k) = sint i * sint sw + 2 * sint j"
    using p kw k0 assms(3) Suc.prems(2) by (subst sint_mul_add) linarith+
  have k1: "sint (k + 1) = sint k + 1"
    using kw assms(3) p by (intro sint_add1) linarith
  have o2: "sint (i * sw + (k + 1)) = sint i * sint sw + 2 * sint j + 1"
    using p kw k0 assms(3) Suc.prems(2) k1 by (subst sint_mul_add) linarith+
  have j1: "sint (j + 1) = sint j + 1"
    using lt sint_lt [of w] by (intro sint_add1) simp
  have k2: "sint (k + 2) = 2 * sint (j + 1)"
    using kw assms(3) p Suc.prems(2) j1 by (subst sint_add2) linarith+
  have m: "n = nat (sint w div 2 - sint (j + 1))" using Suc.hyps(2) j1 by simp
  have j0: "0 \<le> sint (j + 1)" using Suc.prems(1) j1 by simp
  have u: "[sint j..sint w div 2 - 1] = sint j # [sint (j + 1)..sint w div 2 - 1]"
    using lt j1 by (simp add: upto_rec1)
  show ?case
    unfolding luma_cols_step [OF g] o1 o2 u Suc.hyps(1) [OF m j0 k2]
    by (simp split: sum.splits)
qed

lemma luma_cols_row:
  assumes "0 \<le> sint i" "0 \<le> sint sw" "sint i * sint sw + sint w < 2 ^ 31"
  shows "luma_cols T b w sw i 0 0 r = scan T b Luma (luma_row_offsets (sint w) (sint sw) (sint i)) r"
  using luma_cols_scan [OF assms, of 0 0 T b r] by (simp add: luma_row_offsets_def)

lemma luma_rows_step:
  "i <s h \<Longrightarrow> luma_rows T b w h sw i r =
     (case luma_cols T b w sw i 0 0 r of
        Inl e \<Rightarrow> Inl e
      | Inr r' \<Rightarrow> luma_rows T b w h sw (i + 1) r')"
  by (subst luma_rows.simps) (simp only: if_True)

lemma luma_rows_done: "\<not> i <s h \<Longrightarrow> luma_rows T b w h sw i r = Inr r"
  by (subst luma_rows.simps) (simp only: if_False)

lemma rows_bound:
  fixes I N SW W :: int
  assumes "0 \<le> I" "I < N" "0 \<le> W" "W \<le> SW"
  shows "0 \<le> I * SW" "I * SW + W \<le> N * SW"
proof -
  have sw: "0 \<le> SW" using assms by simp
  show "0 \<le> I * SW" using assms(1) sw by simp
  have "(I + 1) * SW \<le> N * SW"
    using assms(2) sw by (intro mult_right_mono) simp_all
  then have "I * SW + SW \<le> N * SW" by (simp add: distrib_right)
  then show "I * SW + W \<le> N * SW" using assms(4) by linarith
qed

lemma luma_rows_scan:
  assumes "0 \<le> sint w" "sint w \<le> sint sw" "sint h * sint sw < 2 ^ 31" and "0 \<le> sint i"
  shows "luma_rows T b w h sw i r =
   scan T b Luma (concat (map (luma_row_offsets (sint w) (sint sw)) [sint i..sint h - 1])) r"
  using assms(4)
proof (induction "nat (sint h - sint i)" arbitrary: i r)
  case 0
  then have n: "\<not> i <s h" by (simp add: sless_sint)
  from 0 have "[sint i..sint h - 1] = []" by simp
  then show ?case by (simp add: luma_rows_done [OF n])
next
  case (Suc n)
  then have lt: "sint i < sint h" by simp
  then have g: "i <s h" by (simp add: sless_sint)
  have sw: "0 \<le> sint sw" using assms(1,2) by simp
  from rows_bound [OF Suc.prems lt assms(1,2)] assms(3)
  have b: "sint i * sint sw + sint w < 2 ^ 31" by linarith
  have i1: "sint (i + 1) = sint i + 1"
    using lt sint_lt [of h] by (intro sint_add1) simp
  have m: "n = nat (sint h - sint (i + 1))" using Suc.hyps(2) i1 by simp
  have i0: "0 \<le> sint (i + 1)" using Suc.prems i1 by simp
  have u: "[sint i..sint h - 1] = sint i # [sint (i + 1)..sint h - 1]"
    using lt i1 by (simp add: upto_rec1)
  show ?case
    unfolding luma_rows_step [OF g] luma_cols_row [OF Suc.prems sw b] u Suc.hyps(1) [OF m i0]
    by (simp add: scan_append)
qed

lemma filter_step2:
  "j < w \<Longrightarrow> filter (\<lambda>c. even (c - j)) [j..w - 1] = j # filter (\<lambda>c. even (c - (j + 2))) [j + 2..w - 1]"
proof (cases "j + 1 < w")
  case True
  assume "j < w"
  then have "[j..w - 1] = j # [j + 1..w - 1]" by (simp add: upto_rec1)
  moreover have "[j + 1..w - 1] = (j + 1) # [j + 2..w - 1]"
    using True by (simp add: upto_rec1 ac_simps)
  ultimately show ?thesis by (simp add: add.commute)
next
  case False
  assume "j < w"
  with False have "w = j + 1" by simp
  then show ?thesis by simp
qed

lemma cb_cols_step:
  "j <s w \<Longrightarrow> cb_cols T b w sw sh i j r =
     (case peek b (sint (sw * sh + i * sw + j)) of
        Inl e \<Rightarrow> Inl e
      | Inr p \<Rightarrow> cb_cols T b w sw sh i (j + 2) (feed T Cb (sint (sw * sh + i * sw + j)) p r))"
  by (subst cb_cols.simps) (simp only: if_True)

lemma cb_cols_done: "\<not> j <s w \<Longrightarrow> cb_cols T b w sw sh i j r = Inr r"
  by (subst cb_cols.simps) (simp only: if_False)

lemma cb_cols_scan:
  assumes "0 \<le> sint sw * sint sh" "0 \<le> sint i * sint sw"
    and "sint sw * sint sh + sint i * sint sw + sint w < 2 ^ 31" "sint w + 1 < 2 ^ 31"
    and "0 \<le> sint j"
  shows "cb_cols T b w sw sh i j r =
   scan T b Cb (map (\<lambda>c. sint sw * sint sh + sint i * sint sw + c)
                    (filter (\<lambda>c. even (c - sint j)) [sint j..sint w - 1])) r"
  using assms(5)
proof (induction "nat (sint w - sint j)" arbitrary: j r rule: less_induct)
  case less
  show ?case
  proof (cases "sint j < sint w")
    case True
    then have g: "j <s w" by (simp add: sless_sint)
    have o: "sint (sw * sh + i * sw + j) = sint sw * sint sh + sint i * sint sw + sint j"
      using assms(1,2,3) less.prems True by (intro sint_chroma) linarith+
    have j2: "sint (j + 2) = sint j + 2"
      using True assms(4) by (intro sint_add2) linarith
    have m: "nat (sint w - sint (j + 2)) < nat (sint w - sint j)" using True j2 by simp
    have j0: "0 \<le> sint (j + 2)" using less.prems j2 by simp
    show ?thesis
      unfolding cb_cols_step [OF g] o filter_step2 [OF True] less.hyps [OF m j0] j2
      by (simp split: sum.splits)
  next
    case False
    then have n: "\<not> j <s w" by (simp add: sless_sint)
    from False have "[sint j..sint w - 1] = []" by simp
    then show ?thesis by (simp add: cb_cols_done [OF n])
  qed
qed

lemma cr_cols_step:
  "j <s w \<Longrightarrow> cr_cols T b w sw sh i j r =
     (case peek b (sint (sw * sh + i * sw + j + 1)) of
        Inl e \<Rightarrow> Inl e
      | Inr p \<Rightarrow> cr_cols T b w sw sh i (j + 2) (feed T Cr (sint (sw * sh + i * sw + j + 1)) p r))"
  by (subst cr_cols.simps) (simp only: if_True)

lemma cr_cols_done: "\<not> j <s w \<Longrightarrow> cr_cols T b w sw sh i j r = Inr r"
  by (subst cr_cols.simps) (simp only: if_False)

lemma cr_cols_scan:
  assumes "0 \<le> sint sw * sint sh" "0 \<le> sint i * sint sw"
    and "sint sw * sint sh + sint i * sint sw + sint w < 2 ^ 31" "sint w + 1 < 2 ^ 31"
    and "0 \<le> sint j"
  shows "cr_cols T b w sw sh i j r =
   scan T b Cr (map (\<lambda>c. sint sw * sint sh + sint i * sint sw + c + 1)
                    (filter (\<lambda>c. even (c - sint j)) [sint j..sint w - 1])) r"
  using assms(5)
proof (induction "nat (sint w - sint j)" arbitrary: j r rule: less_induct)
  case less
  show ?case
  proof (cases "sint j < sint w")
    case True
    then have g: "j <s w" by (simp add: sless_sint)
    have o: "sint (sw * sh + i * sw + j) = sint sw * sint sh + sint i * sint sw + sint j"
      using assms(1,2,3) less.prems True by (intro sint_chroma) linarith+
    have o1: "sint (sw * sh + i * sw + j + 1) = sint sw * sint sh + sint i * sint sw + sint j + 1"
      using assms(3) True unfolding sint_add1 [of "sw * sh + i * sw + j", unfolded o] o
      by (subst sint_add1) (simp_all add: o)
    have j2: "sint (j + 2) = sint j + 2"
      using True assms(4) by (intro sint_add2) linarith
    have m: "nat (sint w - sint (j + 2)) < nat (sint w - sint j)" using True j2 by simp
    have j0: "0 \<le> sint (j + 2)" using less.prems j2 by simp
    show ?thesis
      unfolding cr_cols_step [OF g] o1 filter_step2 [OF True] less.hyps [OF m j0] j2
      by (simp split: sum.splits)
  next
    case False
    then have n: "\<not> j <s w" by (simp add: sless_sint)
    from False have "[sint j..sint w - 1] = []" by simp
    then show ?thesis by (simp add: cr_cols_done [OF n])
  qed
qed

lemma cb_rows_step:
  "i <s gint_div h 2 \<Longrightarrow> cb_rows T b w h sw sh i r =
     (case cb_cols T b w sw sh i 0 r of
        Inl e \<Rightarrow> Inl e
      | Inr r' \<Rightarrow> cb_rows T b w h sw sh (i + 1) r')"
  by (subst cb_rows.simps) (simp only: if_True)

lemma cb_rows_done: "\<not> i <s gint_div h 2 \<Longrightarrow> cb_rows T b w h sw sh i r = Inr r"
  by (subst cb_rows.simps) (simp only: if_False)

lemma cr_rows_step:
  "i <s gint_div h 2 \<Longrightarrow> cr_rows T b w h sw sh i r =
     (case cr_cols T b w sw sh i 0 r of
        Inl e \<Rightarrow> Inl e
      | Inr r' \<Rightarrow> cr_rows T b w h sw sh (i + 1) r')"
  by (subst cr_rows.simps) (simp only: if_True)

lemma cr_rows_done: "\<not> i <s gint_div h 2 \<Longrightarrow> cr_rows T b w h sw sh i r = Inr r"
  by (subst cr_rows.simps) (simp only: if_False)

lemma chroma_row_range:
  fixes I Hh W SW SH :: int
  assumes "0 \<le> I" "I < Hh" "0 \<le> W" "W \<le> SW" "0 \<le> SH" "SW * (SH + Hh) < 2 ^ 31"
  shows "0 \<le> SW * SH" "0 \<le> I * SW" "SW * SH + I * SW + W < 2 ^ 31"
proof -
  have sw: "0 \<le> SW" using assms by simp
  show "0 \<le> SW * SH" using sw assms(5) by simp
  from rows_bound [OF assms(1,2,3,4)] show "0 \<le> I * SW" by simp
  from rows_bound [OF assms(1,2,3,4)] have "I * SW + W \<le> Hh * SW" by simp
  moreover have "SW * (SH + Hh) = SW * SH + Hh * SW" by (simp add: distrib_left mult.commute)
  ultimately show "SW * SH + I * SW + W < 2 ^ 31" using assms(6) by linarith
qed

lemma cb_rows_scan:
  assumes "0 \<le> sint w" "sint w \<le> sint sw" "sint w + 1 < 2 ^ 31" "0 \<le> sint sh"
    and "sint sw * (sint sh + sint h sdiv 2) < 2 ^ 31" and "0 \<le> sint i"
  shows "cb_rows T b w h sw sh i r =
   scan T b Cb (concat (map (\<lambda>i. map (\<lambda>c. sint sw * sint sh + i * sint sw + c) (even_columns (sint w)))
                            [sint i..sint h sdiv 2 - 1])) r"
  using assms(6)
proof (induction "nat (sint h sdiv 2 - sint i)" arbitrary: i r)
  case 0
  then have n: "\<not> i <s gint_div h 2" by (simp add: sless_sint sint_div2)
  from 0 have "[sint i..sint h sdiv 2 - 1] = []" by simp
  then show ?case by (simp add: cb_rows_done [OF n])
next
  case (Suc n)
  then have lt: "sint i < sint h sdiv 2" by simp
  then have g: "i <s gint_div h 2" by (simp add: sless_sint sint_div2)
  note c = chroma_row_range [OF Suc.prems lt assms(1,2,4,5)]
  have z: "0 \<le> sint (0 :: gint)" by simp
  have row: "cb_cols T b w sw sh i 0 r =
      scan T b Cb (map (\<lambda>c. sint sw * sint sh + sint i * sint sw + c) (even_columns (sint w))) r"
    using cb_cols_scan [OF c assms(3) z, of T b r] by (simp add: even_columns_def)
  have i1: "sint (i + 1) = sint i + 1"
    using lt sint_lt [of "gint_div h 2"] by (intro sint_add1) (simp add: sint_div2)
  have m: "n = nat (sint h sdiv 2 - sint (i + 1))" using Suc.hyps(2) i1 by simp
  have i0: "0 \<le> sint (i + 1)" using Suc.prems i1 by simp
  have u: "[sint i..sint h sdiv 2 - 1] = sint i # [sint (i + 1)..sint h sdiv 2 - 1]"
    using lt i1 by (simp add: upto_rec1)
  show ?case
    unfolding cb_rows_step [OF g] row u Suc.hyps(1) [OF m i0]
    by (simp add: scan_append)
qed

lemma cr_rows_scan:
  assumes "0 \<le> sint w" "sint w \<le> sint sw" "sint w + 1 < 2 ^ 31" "0 \<le> sint sh"
    and "sint sw * (sint sh + sint h sdiv 2) < 2 ^ 31" and "0 \<le> sint i"
  shows "cr_rows T b w h sw sh i r =
   scan T b Cr (concat (map (\<lambda>i. map (\<lambda>c. sint sw * sint sh + i * sint sw + c + 1) (even_columns (sint w)))
                            [sint i..sint h sdiv 2 - 1])) r"
  using assms(6)
proof (induction "nat (sint h sdiv 2 - sint i)" arbitrary: i r)
  case 0
  then have n: "\<not> i <s gint_div h 2" by (simp add: sless_sint sint_div2)
  from 0 have "[sint i..sint h sdiv 2 - 1] = []" by simp
  then show ?case by (simp add: cr_rows_done [OF n])
next
  case (Suc n)
  then have lt: "sint i < sint h sdiv 2" by simp
  then have g: "i <s gint_div h 2" by (simp add: sless_sint sint_div2)
  note c = chroma_row_range [OF Suc.prems lt assms(1,2,4,5)]
  have z: "0 \<le> sint (0 :: gint)" by simp
  have row: "cr_cols T b w sw sh i 0 r =
      scan T b Cr (map (\<lambda>c. sint sw * sint sh + sint i * sint sw + c + 1) (even_columns (sint w))) r"
    using cr_cols_scan [OF c assms(3) z, of T b r] by (simp add: even_columns_def)
  have i1: "sint (i + 1) = sint i + 1"
    using lt sint_lt [of "gint_div h 2"] by (intro sint_add1) (simp add: sint_div2)
  have m: "n = nat (sint h sdiv 2 - sint (i + 1))" using Suc.hyps(2) i1 by simp
  have i0: "0 \<le> sint (i + 1)" using Suc.prems i1 by simp
  have u: "[sint i..sint h sdiv 2 - 1] = sint i # [sint (i + 1)..sint h sdiv 2 - 1]"
    using lt i1 by (simp add: upto_rec1)
  show ?case
    unfolding cr_rows_step [OF g] row u Suc.hyps(1) [OF m i0]
    by (simp add: scan_append)
qed

text \<open>
  The body of the hardware-backed branch as three scans, for a geometry in range.
\<close>

lemma ion_checksum_scan:
  assumes "planar_fits v"
  shows "ion_checksum v b =
     (case scan (crc32bit_table v) b Luma
             (luma_offsets (sint (width v)) (sint (height v)) (sint (stride_w v)))
             \<lparr>CRC = 0, reads = []\<rparr> of
        Inl e \<Rightarrow> Inl e
      | Inr r1 \<Rightarrow>
         (case scan (crc32bit_table v) b Cb
                 (cb_offsets (sint (width v)) (sint (height v)) (sint (stride_w v)) (sint (stride_h v)))
                 (complement r1) of
            Inl e \<Rightarrow> Inl e
          | Inr r2 \<Rightarrow>
             (case scan (crc32bit_table v) b Cr
                     (cr_offsets (sint (width v)) (sint (height v)) (sint (stride_w v)) (sint (stride_h v)))
                     (complement r2) of
                Inl e \<Rightarrow> Inl e
              | Inr r3 \<Rightarrow> Inr (complement r3))))"
proof -
  let ?W = "sint (width v)" and ?H = "sint (height v)"
  let ?SW = "sint (stride_w v)" and ?SH = "sint (stride_h v)"
  from assms have f: "0 \<le> ?W" "0 \<le> ?H" "?W \<le> ?SW" "even ?SW" "?H \<le> ?SH"
    and e: "?SW * (?SH + ?H div 2) < 2 ^ 31"
    by (simp_all add: planar_fits_def planar_extent_def)
  have sd: "?H sdiv 2 = ?H div 2" using f(2) by (simp add: signed_divide_int_def sgn_if)
  have sw: "0 \<le> ?SW" and sh: "0 \<le> ?SH" using f by simp_all
  have "?SW < 2 ^ 31" using sint_lt [of "stride_w v"] by simp
  then have "?SW \<noteq> 2 ^ 31 - 1" "?SW \<le> 2 ^ 31 - 1" using f(4) by auto
  then have w1: "?W + 1 < 2 ^ 31" using f(3) by linarith
  have "0 \<le> ?SW * (?H div 2)" using sw f(2) by simp
  moreover have "?H * ?SW \<le> ?SH * ?SW" using f(5) sw by (intro mult_right_mono)
  moreover have "?SW * (?SH + ?H div 2) = ?SH * ?SW + ?SW * (?H div 2)"
    by (simp add: distrib_left mult.commute)
  ultimately have l: "?H * ?SW < 2 ^ 31" using e by linarith
  have z: "0 \<le> sint (0 :: gint)" by simp
  note e' = e [folded sd]
  have s0: "sint (0 :: gint) = 0" by simp
  note l3 = luma_rows_scan [OF f(1) f(3) l z, unfolded s0]
  note u3 = cb_rows_scan [OF f(1) f(3) w1 sh e' z, unfolded s0 sd]
  note v3 = cr_rows_scan [OF f(1) f(3) w1 sh e' z, unfolded s0 sd]
  show ?thesis
    unfolding ion_checksum_def Let_def l3 u3 v3 luma_offsets_def cb_offsets_def cr_offsets_def
    by (rule refl)
qed

text \<open>
  What a scan returns: the offsets it has read, that all of them lie in the view, the
  accumulator, and the fault at the first offset outside the view.
\<close>

lemma scan_reads:
  "scan T b s offs r = Inr r' \<Longrightarrow> reads r' = reads r @ map (Pair s) offs"
  by (induction offs arbitrary: r) (auto simp: feed_def split: sum.splits)

lemma scan_None: "scan T None s offs r = Inr r' \<Longrightarrow> offs = []"
  by (cases offs) (auto simp: peek_def)

lemma scan_in_view:
  "scan T (Some view) s offs r = Inr r' \<Longrightarrow> list_all (in_view view) offs"
  by (induction offs arbitrary: r) (auto simp: peek_def in_view_def split: sum.splits if_splits)

lemma scan_ok:
  "list_all (in_view view) offs \<Longrightarrow>
   scan T (Some view) s offs r =
     Inr \<lparr>CRC = table_updates T (bytes_at view offs) (CRC r), reads = reads r @ map (Pair s) offs\<rparr>"
  by (induction offs arbitrary: r)
     (auto simp: peek_def in_view_def feed_def table_updates_def bytes_at_def)

lemma scan_fault:
  "list_all (in_view view) xs \<Longrightarrow> \<not> in_view view off \<Longrightarrow>
   scan T (Some view) s (xs @ off # ys) r = Inl (OutOfRange off)"
  by (auto simp: scan_append scan_ok peek_def in_view_def)

subsection \<open>Bounds of the offsets\<close>

text \<open>
  The offsets of the three passes lie below \<open>stride_w * (stride_h + height / 2)\<close>.
\<close>

lemma luma_offsets_mem:
  assumes "off \<in> set (luma_offsets w h sw)"
  obtains i j where "0 \<le> i" "i < h" "0 \<le> j" "j < w div 2"
    "off = i * sw + 2 * j \<or> off = i * sw + 2 * j + 1"
proof -
  from assms obtain i where i: "i \<in> set [0..h - 1]" "off \<in> set (luma_row_offsets w sw i)"
    unfolding luma_offsets_def by auto
  from i(2) obtain j where j: "j \<in> set [0..w div 2 - 1]"
    "off \<in> set [i * sw + 2 * j, i * sw + 2 * j + 1]"
    unfolding luma_row_offsets_def drop_bit_eq_div by auto
  show thesis
  proof (rule that [of i j])
    show "0 \<le> i" "i < h" using i(1) by simp_all
    show "0 \<le> j" "j < w div 2" using j(1) by simp_all
    show "off = i * sw + 2 * j \<or> off = i * sw + 2 * j + 1" using j(2) by simp
  qed
qed

lemma chroma_offsets_mem:
  assumes "off \<in> set (concat (map (\<lambda>i. map (\<lambda>j. base + i * sw + j + d) (even_columns w))
                                  [0..n - 1]))"
  obtains i j where "0 \<le> i" "i < n" "0 \<le> j" "j < w" "even j" "off = base + i * sw + j + d"
proof -
  from assms obtain i where i: "i \<in> set [0..n - 1]"
    "off \<in> set (map (\<lambda>j. base + i * sw + j + d) (even_columns w))"
    by auto
  from i(2) obtain j where j: "j \<in> set (even_columns w)" "off = base + i * sw + j + d"
    by auto
  show thesis
  proof (rule that [of i j])
    show "0 \<le> i" "i < n" using i(1) by simp_all
    show "0 \<le> j" "j < w" "even j" using j(1) by (simp_all add: even_columns_def)
    show "off = base + i * sw + j + d" by (rule j(2))
  qed
qed

lemma cb_offsets_mem:
  assumes "off \<in> set (cb_offsets w h sw sh)"
  obtains i j where "0 \<le> i" "i < h div 2" "0 \<le> j" "j < w" "even j"
    "off = sw * sh + i * sw + j"
proof -
  have "off \<in> set (concat (map (\<lambda>i. map (\<lambda>j. sw * sh + i * sw + j + 0) (even_columns w))
                                  [0..h div 2 - 1]))"
    using assms by (simp add: cb_offsets_def)
  then show thesis
  proof (rule chroma_offsets_mem)
    fix i j
    assume "0 \<le> i" "i < h div 2" "0 \<le> j" "j < w" "even j" "off = sw * sh + i * sw + j + 0"
    then show thesis by (intro that [of i j]) simp_all
  qed
qed

lemma cr_offsets_mem:
  assumes "off \<in> set (cr_offsets w h sw sh)"
  obtains i j where "0 \<le> i" "i < h div 2" "0 \<le> j" "j < w" "even j"
    "off = sw * sh + i * sw + j + 1"
proof -
  have "off \<in> set (concat (map (\<lambda>i. map (\<lambda>j. sw * sh + i * sw + j + 1) (even_columns w))
                                  [0..h div 2 - 1]))"
    using assms by (simp add: cr_offsets_def)
  then show thesis by (rule chroma_offsets_mem) (rule that)
qed

lemma row_bound:
  fixes i n sw c :: int
  assumes "0 \<le> i" "i < n" "0 \<le> c" "c < sw"
  shows "0 \<le> i * sw + c \<and> i * sw + c < n * sw"
proof -
  have sw: "0 \<le> sw" using assms by simp
  have a: "0 \<le> i * sw" using assms(1) sw by simp
  have "(i + 1) * sw \<le> n * sw"
    using assms(2) sw by (intro mult_right_mono) simp_all
  then have b: "i * sw + sw \<le> n * sw" by (simp add: distrib_right)
  show ?thesis using a b assms(3,4) by linarith
qed

lemma luma_bound:
  assumes "off \<in> set (luma_offsets w h sw)" "w \<le> sw" "h \<le> sh"
  shows "0 \<le> off \<and> off < sw * sh"
proof -
  from luma_offsets_mem [OF assms(1)] obtain i j where
    ij: "0 \<le> i" "i < h" "0 \<le> j" "j < w div 2"
    and off: "off = i * sw + 2 * j \<or> off = i * sw + 2 * j + 1" by blast
  define c where "c = off - i * sw"
  have c: "off = i * sw + c" "0 \<le> c" "c \<le> 2 * j + 1"
    using off ij(3) unfolding c_def by auto
  have "2 * j + 1 < w" using ij(4) by linarith
  then have cs: "c < sw" using c(3) assms(2) by linarith
  have "i < sh" using ij(2) assms(3) by linarith
  from row_bound [OF ij(1) this c(2) cs]
  show ?thesis by (simp add: c(1) mult.commute)
qed

lemma chroma_bound:
  fixes i j h w c sw sh :: int
  assumes ij: "0 \<le> i" "i < h div 2" "0 \<le> j" "j < w" "even j"
    and c: "c = j \<or> c = j + 1"
    and g: "w \<le> sw" "even sw" "h \<le> sh"
  shows "0 \<le> sw * sh + i * sw + c \<and> sw * sh + i * sw + c < sw * (sh + h div 2)"
proof -
  have "0 < h div 2" using ij(1,2) by linarith
  then have "0 < h" by linarith
  then have sh: "0 \<le> sh" using g(3) by linarith
  have sw: "0 \<le> sw" using ij(3,4) g(1) by linarith
  have "j + 1 \<noteq> sw" using ij(5) g(2) by auto
  then have cs: "c < sw" using c ij(4) g(1) by linarith
  have c0: "0 \<le> c" using c ij(3) by linarith
  from row_bound [OF ij(1) ij(2) c0 cs]
  have r: "0 \<le> i * sw + c" "i * sw + c < h div 2 * sw" by simp_all
  have p: "0 \<le> sw * sh" using sw sh by simp
  have d: "sw * (sh + h div 2) = sw * sh + h div 2 * sw" by (simp add: distrib_left mult.commute)
  show ?thesis unfolding d using r p by linarith
qed

lemma planar_bound:
  assumes g: "w \<le> sw" "even sw" "h \<le> sh"
    and sz: "sw * (sh + h div 2) \<le> int (length view)"
  shows "list_all (in_view view) (luma_offsets w h sw @ cb_offsets w h sw sh @ cr_offsets w h sw sh)"
proof -
  have l: "in_view view off" if m: "off \<in> set (luma_offsets w h sw)" for off
  proof -
    have b: "0 \<le> off" "off < sw * sh" using luma_bound [OF m g(1) g(3)] by simp_all
    from m obtain i j :: int where "0 \<le> i" "i < h" "0 \<le> j" "j < w div 2"
      by (rule luma_offsets_mem)
    then have "0 < w" "0 < h" by linarith+
    then have "0 \<le> sw" "0 \<le> h div 2" using g(1) by simp_all
    then have "0 \<le> sw * (h div 2)" by simp
    then have "sw * sh \<le> sw * (sh + h div 2)" by (simp add: distrib_left)
    then show ?thesis using b sz unfolding in_view_def by linarith
  qed
  have u: "in_view view off" if m: "off \<in> set (cb_offsets w h sw sh)" for off
  proof -
    from m obtain i j where
      ij: "0 \<le> i" "i < h div 2" "0 \<le> j" "j < w" "even j" and off: "off = sw * sh + i * sw + j"
      by (rule cb_offsets_mem)
    have "j = j \<or> j = j + 1" by simp
    from chroma_bound [OF ij this g] sz show ?thesis unfolding in_view_def off by linarith
  qed
  have v: "in_view view off" if m: "off \<in> set (cr_offsets w h sw sh)" for off
  proof -
    from m obtain i j where
      ij: "0 \<le> i" "i < h div 2" "0 \<le> j" "j < w" "even j" and off: "off = sw * sh + i * sw + j + 1"
      by (rule cr_offsets_mem)
    have "j + 1 = j \<or> j + 1 = j + 1" by simp
    from chroma_bound [OF ij this g] sz show ?thesis unfolding in_view_def off by linarith
  qed
  show ?thesis unfolding list_all_iff using l u v by auto
qed

text \<open>
  In general the luma pass visits the columns below \<open>2 * (width div 2)\<close> of each
  row: all of them when the width is even, all but the last when it is odd.
\<close>

lemma pairs_upto:
  "concat (map (\<lambda>j. [b + 2 * j, b + 2 * j + 1]) [0..int n - 1]) = map (\<lambda>c. b + c) [0..2 * int n - 1]"
proof (induction n)
  case 0
  then show ?case by simp
next
  case (Suc n)
  have a: "[0..int (Suc n) - 1] = [0..int n - 1] @ [int n]"
    using upto_rec2 [of 0 "int n"] by simp
  have "[0..2 * int (Suc n) - 1] = [0..2 * int n] @ [2 * int n + 1]"
    using upto_rec2 [of 0 "2 * int n + 1"] by (simp add: add.commute)
  also have "[0..2 * int n] = [0..2 * int n - 1] @ [2 * int n]"
    using upto_rec2 [of 0 "2 * int n"] by simp
  finally have b: "[0..2 * int (Suc n) - 1] = [0..2 * int n - 1] @ [2 * int n, 2 * int n + 1]"
    by simp
  show ?case unfolding a b using Suc.IH by (simp add: add.assoc)
qed

lemma luma_row_columns:
  "luma_row_offsets w sw i = map (\<lambda>c. i * sw + c) [0..2 * (w div 2) - 1]"
proof (cases "0 \<le> w div 2")
  case True
  then obtain n where n: "w div 2 = int n" using nonneg_int_cases by blast
  show ?thesis unfolding luma_row_offsets_def drop_bit_eq_div by (simp add: n pairs_upto)
next
  case False
  then show ?thesis unfolding luma_row_offsets_def drop_bit_eq_div by simp
qed

lemma luma_row_odd:
  "odd w \<Longrightarrow> 0 < w \<Longrightarrow> i * sw + (w - 1) \<notin> set (luma_row_offsets w sw i)"
proof -
  assume "odd w" "0 < w"
  then have "2 * (w div 2) - 1 < w - 1" by presburger
  then show ?thesis unfolding luma_row_columns by auto
qed

lemma luma_row_even:
  "even w \<Longrightarrow> luma_row_offsets w sw i = map (\<lambda>c. i * sw + c) [0..w - 1]"
  unfolding luma_row_columns by simp

subsection \<open>The three passes together\<close>

text \<open>
  The result of the hardware-backed branch over a view that holds every offset, over a failed
  mapping, and over a view too small.
\<close>

lemma ion_scan3:
  assumes "planar_fits v"
  shows "ion_checksum v b =
     (case scan (crc32bit_table v) b Luma (luma_of v) \<lparr>CRC = 0, reads = []\<rparr> of
        Inl e \<Rightarrow> Inl e
      | Inr r1 \<Rightarrow>
         (case scan (crc32bit_table v) b Cb (cb_of v) (complement r1) of
            Inl e \<Rightarrow> Inl e
          | Inr r2 \<Rightarrow>
             (case scan (crc32bit_table v) b Cr (cr_of v) (complement r2) of
                Inl e \<Rightarrow> Inl e
              | Inr r3 \<Rightarrow> Inr (complement r3))))"
  unfolding luma_of_def cb_of_def cr_of_def by (rule ion_checksum_scan [OF assms])

lemma ion_ok:
  assumes "planar_fits v" and "list_all (in_view view) (luma_of v @ cb_of v @ cr_of v)"
  shows "ion_checksum v (Some view) =
     Inr \<lparr>CRC = cascade (crc32bit_table v) (bytes_at view (luma_of v)) (bytes_at view (cb_of v))
                  (bytes_at view (cr_of v)),
          reads = map (Pair Luma) (luma_of v) @ map (Pair Cb) (cb_of v) @ map (Pair Cr) (cr_of v)\<rparr>"
  using assms(2) unfolding ion_scan3 [OF assms(1)]
  by (simp add: scan_ok complement_def cascade_def)

lemma fits_in_view:
  assumes "planar_fits v" and "planar_extent v \<le> int (length view)"
  shows "list_all (in_view view) (luma_of v @ cb_of v @ cr_of v)"
  using assms unfolding luma_of_def cb_of_def cr_of_def planar_fits_def planar_extent_def
  by (intro planar_bound) simp_all

lemma scan_unmapped:
  "scan T None s offs r = (case offs of [] \<Rightarrow> Inr r | off # _ \<Rightarrow> Inl (BadMapping off))"
  by (cases offs) (simp_all add: peek_def)

lemma ion_unmapped:
  assumes "planar_fits v"
  shows "ion_checksum v None =
     (case luma_of v @ cb_of v @ cr_of v of
        [] \<Rightarrow> Inr \<lparr>CRC = 0xFFFFFFFF, reads = []\<rparr>
      | off # _ \<Rightarrow> Inl (BadMapping off))"
  unfolding ion_scan3 [OF assms] scan_unmapped
  by (simp add: complement_def split: list.splits)

lemma ion_small_view:
  assumes "planar_fits v" and "luma_of v = xs @ off # ys"
    and "list_all (in_view view) xs" and "\<not> in_view view off"
  shows "ion_checksum v (Some view) = Inl (OutOfRange off)"
  unfolding ion_scan3 [OF assms(1)] assms(2)
  by (simp add: scan_fault [OF assms(3,4)])

lemma offsets_of_tagged:
  "reads r = map (Pair Luma) L @ map (Pair Cb) U @ map (Pair Cr) V \<Longrightarrow>
   offsets_of Luma r = L \<and> offsets_of Cb r = U \<and> offsets_of Cr r = V"
  by (simp add: offsets_of_def filter_map comp_def)

subsection \<open>The linear traversal\<close>

text \<open>
  The loop of the linear path equals a fold over the bytes of the region when the region has
  fewer than \<open>2^31\<close> bytes.
\<close>

lemma uint_scast_nonneg: "0 \<le> sint (i :: gint) \<Longrightarrow> uint (scast i :: gsize) = sint i"
proof -
  assume a: "0 \<le> sint i"
  have u: "sint i < 2 ^ 31" using sint_lt [of i] by simp
  have "(scast i :: gsize) = word_of_int (sint i)" by (rule scast_eq)
  then have "uint (scast i :: gsize) = take_bit LENGTH(64) (sint i)"
    by (simp only: uint_word_of_int_eq)
  also have "\<dots> = sint i"
    using a u by (intro take_bit_int_eq_self) simp_all
  finally show ?thesis .
qed

lemma uint_size: "n < 2 ^ 31 \<Longrightarrow> uint (word_of_nat n :: gsize) = int n"
proof -
  assume a: "n < 2 ^ 31"
  have "uint (word_of_nat n :: gsize) = int (take_bit 64 n)"
    by (simp add: unsigned_of_nat)
  also have "take_bit 64 n = n"
    using a by (intro take_bit_nat_eq_self) simp
  finally show ?thesis .
qed

lemma linear_guard:
  assumes "0 \<le> sint i" "length data < 2 ^ 31"
  shows "((scast (i :: gint) :: gsize) < word_of_nat (length data)) = (sint i < int (length data))"
  unfolding word_less_def uint_scast_nonneg [OF assms(1)] uint_size [OF assms(2)] by (rule refl)

lemma linear_bytes_step:
  "(scast i :: gsize) < word_of_nat (length data) \<Longrightarrow> linear_bytes T data i c =
     (case peek (Some data) (sint i) of
        Inl e \<Rightarrow> Inl e
      | Inr b \<Rightarrow> linear_bytes T data (i + 1) (linear_update T c b))"
  by (subst linear_bytes.simps) (simp only: if_True)

lemma linear_bytes_done:
  "\<not> (scast i :: gsize) < word_of_nat (length data) \<Longrightarrow> linear_bytes T data i c = Inr c"
  by (subst linear_bytes.simps) (simp only: if_False)

lemma linear_bytes_fold:
  assumes "length data < 2 ^ 31" and "0 \<le> sint i" "nat (sint i) \<le> length data"
  shows "linear_bytes T data i c =
           Inr (fold (\<lambda>b c. linear_update T c b) (drop (nat (sint i)) data) c)"
  using assms(2,3)
proof (induction "length data - nat (sint i)" arbitrary: i c)
  case 0
  then have "\<not> sint i < int (length data)" by linarith
  then have n: "\<not> (scast i :: gsize) < word_of_nat (length data)"
    unfolding linear_guard [OF 0(2) assms(1)] .
  from 0 have "drop (nat (sint i)) data = []" by simp
  then show ?case unfolding linear_bytes_done [OF n] by simp
next
  case (Suc n)
  then have lt: "sint i < int (length data)" by linarith
  then have g: "(scast i :: gsize) < word_of_nat (length data)"
    unfolding linear_guard [OF Suc.prems(1) assms(1)] .
  have p: "peek (Some data) (sint i) = Inr (data ! nat (sint i))"
    using lt Suc.prems(1) by (simp add: peek_def)
  have i1: "sint (i + 1) = sint i + 1"
    using lt assms(1) by (intro sint_add1) simp
  have m: "n = length data - nat (sint (i + 1))" using Suc.hyps(2) Suc.prems(1) i1 by linarith
  have i0: "0 \<le> sint (i + 1)" "nat (sint (i + 1)) \<le> length data"
    using i1 lt Suc.prems(1) by linarith+
  have s: "nat (sint (i + 1)) = Suc (nat (sint i))"
    unfolding i1 using Suc.prems(1) by linarith
  have "nat (sint i) < length data" using lt Suc.prems(1) by linarith
  then have d: "drop (nat (sint i)) data = data ! nat (sint i) # drop (nat (sint (i + 1))) data"
    unfolding s by (rule Cons_nth_drop_Suc [symmetric])
  show ?case
    unfolding linear_bytes_step [OF g] p d Suc.hyps(1) [OF m i0] by simp
qed

lemma linear_checksum_crc:
  "length data < 2 ^ 31 \<Longrightarrow> linear_checksum v data = Inr (linear_crc (crc32bit_table v) data)"
  using linear_bytes_fold [of data 0 "crc32bit_table v" 0]
  by (simp add: linear_checksum_def linear_crc_def)

subsection \<open>Per-frame processing\<close>

text \<open>
  What \<open>gst_videocrc_transform_frame_ip\<close> returns on each path.
\<close>

lemma ion_checksum_upd_crc [simp]: "ion_checksum (v\<lparr>crc := c\<rparr>) b = ion_checksum v b"
  by (simp add: ion_checksum_def)

lemma linear_checksum_upd_crc [simp]: "linear_checksum (v\<lparr>crc := c\<rparr>) d = linear_checksum v d"
  by (simp add: linear_checksum_def)

lemma transform_linear:
  "ion_meta buf = None \<Longrightarrow> length (map_data buf) < 2 ^ 31 \<Longrightarrow>
   gst_videocrc_transform_frame_ip v buf =
     Inr (GST_FLOW_OK, (frame_num v + 1, linear_crc (crc32bit_table v) (map_data buf)),
          emitted v (linear_crc (crc32bit_table v) (map_data buf)))"
  by (cases "logfile v")
     (simp_all add: gst_videocrc_transform_frame_ip_def emitted_def Let_def linear_checksum_crc)

lemma transform_ion:
  "ion_meta buf = Some m \<Longrightarrow> ion_checksum v (mmap_result buf) = Inr r \<Longrightarrow>
   gst_videocrc_transform_frame_ip v buf =
     Inr (GST_FLOW_OK, (frame_num v + 1, CRC r), emitted v (CRC r))"
  by (cases "logfile v") (simp_all add: gst_videocrc_transform_frame_ip_def emitted_def Let_def)

lemma transform_ion_fault:
  "ion_meta buf = Some m \<Longrightarrow> ion_checksum v (mmap_result buf) = Inl e \<Longrightarrow>
   gst_videocrc_transform_frame_ip v buf = Inl e"
  by (simp add: gst_videocrc_transform_frame_ip_def)

lemma emitted_simps [simp]:
  "frame_num (emitted v c) = frame_num v + 1"
  "crc (emitted v c) = c"
  "crc32bit_table (emitted v c) = crc32bit_table v"
  "width (emitted v c) = width v" "height (emitted v c) = height v"
  "stride_w (emitted v c) = stride_w v" "stride_h (emitted v c) = stride_h v"
  by (simp_all add: emitted_def)

subsection \<open>Alignment\<close>

text \<open>
  \<open>ALIGN\<close> rounds up to a multiple of 128 or 32 while the sum stays in range; a
  negotiation of positive width and height whose padded frame is below \<open>2^31\<close>
  bytes leaves a geometry in range.
\<close>

lemma and_not_mask_int: "(x :: int) AND NOT (mask n) = push_bit n (drop_bit n x)"
  by (rule bit_eqI) (auto simp: bit_simps)

lemma ALIGN_sint:
  assumes "0 \<le> sint w" "sint w + (2 ^ n - 1) < 2 ^ 31" "n < 31"
  shows "sint (ALIGN w (2 ^ n)) = round_up (sint w) (2 ^ n)"
proof (rule sint_lift)
  have m: "(2 :: int) ^ n - 1 = mask n" by (simp add: mask_eq_exp_minus_1)
  have "ALIGN w (2 ^ n) = word_of_int ((sint w + (2 ^ n - 1)) AND NOT (2 ^ n - 1))"
    by (simp add: ALIGN_def of_int_and_eq of_int_not_eq)
  also have "(sint w + (2 ^ n - 1)) AND NOT (2 ^ n - 1) = round_up (sint w) (2 ^ n)"
    unfolding m and_not_mask_int
    by (simp add: round_up_def push_bit_eq_mult drop_bit_eq_div mask_eq_exp_minus_1)
  finally show "ALIGN w (2 ^ n) = word_of_int (round_up (sint w) (2 ^ n))" .
  have p: "(0 :: int) < 2 ^ n" by simp
  have "0 \<le> (sint w + (2 ^ n - 1)) div 2 ^ n"
    using assms(1) p by (intro pos_imp_zdiv_nonneg_iff [THEN iffD2]) simp_all
  then have "0 \<le> round_up (sint w) (2 ^ n)" unfolding round_up_def by simp
  then show "- (2 ^ 31) \<le> round_up (sint w) (2 ^ n)" by simp
  have "round_up (sint w) (2 ^ n) \<le> sint w + (2 ^ n - 1)"
    unfolding round_up_def
    using mult_div_mod_eq [of "2 ^ n" "sint w + (2 ^ n - 1)"]
      pos_mod_sign [OF p, of "sint w + (2 ^ n - 1)"] by linarith
  then show "round_up (sint w) (2 ^ n) < 2 ^ 31" using assms(2) by linarith
qed

lemma round_up_ge: "0 < a \<Longrightarrow> n \<le> round_up n a"
proof -
  assume a: "0 < a"
  have "(n + (a - 1)) mod a < a" using a by simp
  then show ?thesis
    unfolding round_up_def using mult_div_mod_eq [of a "n + (a - 1)"] by linarith
qed

lemma round_up_pos: "0 < a \<Longrightarrow> 0 < n \<Longrightarrow> a \<le> round_up n a"
proof -
  assume a: "0 < a" "0 < n"
  then have "a \<le> n + (a - 1)" by simp
  then have "0 < (n + (a - 1)) div a" using a(1) by (simp only: pos_imp_zdiv_pos_iff)
  then have "1 \<le> (n + (a - 1)) div a" by simp
  then have "a * 1 \<le> a * ((n + (a - 1)) div a)" using a(1) by (intro mult_left_mono) simp_all
  then show ?thesis by (simp add: round_up_def)
qed

lemma ALIGN_128: "0 \<le> sint w \<Longrightarrow> sint w + 127 < 2 ^ 31 \<Longrightarrow>
  sint (ALIGN w ALIGN128) = round_up (sint w) 128"
  using ALIGN_sint [of w 7] by (simp add: ALIGN128_def)

lemma ALIGN_32: "0 \<le> sint w \<Longrightarrow> sint w + 31 < 2 ^ 31 \<Longrightarrow>
  sint (ALIGN w ALIGN32) = round_up (sint w) 32"
  using ALIGN_sint [of w 5] by (simp add: ALIGN32_def)

lemma set_info_geometry:
  "width (snd (gst_videocrc_set_info v0 info)) = vi_width info"
  "height (snd (gst_videocrc_set_info v0 info)) = vi_height info"
  "stride_w (snd (gst_videocrc_set_info v0 info)) = ALIGN (vi_width info) ALIGN128"
  "stride_h (snd (gst_videocrc_set_info v0 info)) = ALIGN (vi_height info) ALIGN32"
  "crc32bit_table (snd (gst_videocrc_set_info v0 info)) = crc32bit_table v0"
  "frame_num (snd (gst_videocrc_set_info v0 info)) = frame_num v0"
  "logfile (snd (gst_videocrc_set_info v0 info)) = logfile v0"
  by (simp_all add: gst_videocrc_set_info_def Let_def)

lemma negotiated_fits:
  assumes "0 < sint (vi_width info)" "0 < sint (vi_height info)"
    and "padded_extent (sint (vi_width info)) (sint (vi_height info)) < 2 ^ 31"
  shows "sint (stride_w (snd (gst_videocrc_set_info v0 info))) = round_up (sint (vi_width info)) 128"
    and "sint (stride_h (snd (gst_videocrc_set_info v0 info))) = round_up (sint (vi_height info)) 32"
    and "planar_extent (snd (gst_videocrc_set_info v0 info))
           = padded_extent (sint (vi_width info)) (sint (vi_height info))"
    and "planar_fits (snd (gst_videocrc_set_info v0 info))"
proof -
  let ?W = "sint (vi_width info)" and ?H = "sint (vi_height info)"
  let ?SW = "round_up ?W 128" and ?SH = "round_up ?H 32"
  have sw: "128 \<le> ?SW" "?W \<le> ?SW" using assms(1) by (simp_all add: round_up_pos round_up_ge)
  have sh: "32 \<le> ?SH" "?H \<le> ?SH" using assms(2) by (simp_all add: round_up_pos round_up_ge)
  have h2: "0 \<le> ?H div 2" using assms(2) by simp
  have e: "?SW * (?SH + ?H div 2) < 2 ^ 31" using assms(3) by (simp add: padded_extent_def)
  have "?SW * 32 \<le> ?SW * (?SH + ?H div 2)" using sw(1) sh(1) h2 by (intro mult_left_mono) simp_all
  then have "?SW * 32 < 2 ^ 31" using e by linarith
  then have w: "?W + 127 < 2 ^ 31" using sw(2) by simp
  have "128 * ?SH \<le> ?SW * ?SH" using sw(1) sh(1) by (intro mult_right_mono) simp_all
  moreover have "?SW * ?SH \<le> ?SW * (?SH + ?H div 2)"
    using sw(1) h2 by (intro mult_left_mono) simp_all
  ultimately have "128 * ?SH < 2 ^ 31" using e by linarith
  then have h: "?H + 31 < 2 ^ 31" using sh(2) by simp
  show a: "sint (stride_w (snd (gst_videocrc_set_info v0 info))) = ?SW"
    using assms(1) w by (simp add: set_info_geometry ALIGN_128)
  show b: "sint (stride_h (snd (gst_videocrc_set_info v0 info))) = ?SH"
    using assms(2) h by (simp add: set_info_geometry ALIGN_32)
  show c: "planar_extent (snd (gst_videocrc_set_info v0 info)) = padded_extent ?W ?H"
    unfolding planar_extent_def padded_extent_def a b by (simp add: set_info_geometry)
  have "even ?SW" by (simp add: round_up_def)
  then show "planar_fits (snd (gst_videocrc_set_info v0 info))"
    unfolding planar_fits_def c a b
    using assms sw(2) sh(2) by (simp add: set_info_geometry)
qed

subsection \<open>The example instances\<close>

text \<open>
  The geometry and the offsets of the negotiated 1x1, 2x2 and 3x1 formats.
\<close>

lemma nv12_simps:
  "vi_width (nv12_info w h) = w" "vi_height (nv12_info w h) = h"
  by (simp_all add: nv12_info_def)

lemma negotiated_simps:
  "width (negotiated w h) = w" "height (negotiated w h) = h"
  "stride_w (negotiated w h) = ALIGN w ALIGN128" "stride_h (negotiated w h) = ALIGN h ALIGN32"
  "frame_num (negotiated w h) = 0" "logfile (negotiated w h) = None"
  by (simp_all add: negotiated_def gst_videocrc_set_info_def nv12_info_def Let_def
        gst_videocrc_init_def gst_videocrc_init_crc32bit_table_def gst_videocrc_reset_def
        zeroed_instance_def)

lemma round_up_small:
  "round_up 1 128 = 128" "round_up 2 128 = 128" "round_up 3 128 = 128"
  "round_up 1 32 = 32" "round_up 2 32 = 32"
  by (simp_all add: round_up_def)

lemma extent_small:
  "padded_extent 1 1 = 4096" "padded_extent 2 2 = 4224" "padded_extent 3 1 = 4096"
  by (simp_all add: padded_extent_def round_up_small)

lemma sint_small: "sint (1 :: gint) = 1" "sint (2 :: gint) = 2" "sint (3 :: gint) = 3"
  by simp_all

lemma fits_2x2:
  "planar_fits (negotiated 2 2)" "planar_extent (negotiated 2 2) = 4224"
  "sint (stride_w (negotiated 2 2)) = 128" "sint (stride_h (negotiated 2 2)) = 32"
  using negotiated_fits [of "nv12_info 2 2" "gst_videocrc_init zeroed_instance"]
  by (simp_all add: nv12_simps sint_small extent_small round_up_small negotiated_def)

lemma fits_3x1:
  "planar_fits (negotiated 3 1)" "planar_extent (negotiated 3 1) = 4096"
  "sint (stride_w (negotiated 3 1)) = 128" "sint (stride_h (negotiated 3 1)) = 32"
  using negotiated_fits [of "nv12_info 3 1" "gst_videocrc_init zeroed_instance"]
  by (simp_all add: nv12_simps sint_small extent_small round_up_small negotiated_def)

lemma fits_1x1:
  "planar_fits (negotiated 1 1)" "planar_extent (negotiated 1 1) = 4096"
  "sint (stride_w (negotiated 1 1)) = 128" "sint (stride_h (negotiated 1 1)) = 32"
  using negotiated_fits [of "nv12_info 1 1" "gst_videocrc_init zeroed_instance"]
  by (simp_all add: nv12_simps sint_small extent_small round_up_small negotiated_def)

lemma offs_2x2:
  "luma_offsets 2 2 128 = [0, 1, 128, 129]"
  "cb_offsets 2 2 128 32 = [4096]"
  "cr_offsets 2 2 128 32 = [4097]"
  by code_simp+

lemma of_2x2:
  "luma_of (negotiated 2 2) = [0, 1, 128, 129]"
  "cb_of (negotiated 2 2) = [4096]"
  "cr_of (negotiated 2 2) = [4097]"
  unfolding luma_of_def cb_of_def cr_of_def negotiated_simps fits_2x2 (3,4) [unfolded negotiated_simps] sint_small
  by (rule offs_2x2)+

lemma luma_3x1: "luma_offsets 3 1 128 = [0, 1]"
  by code_simp

lemma chroma_3x1: "cb_offsets 3 1 128 32 = []" "cr_offsets 3 1 128 32 = []"
  by (simp_all add: cb_offsets_def cr_offsets_def)

lemma of_3x1:
  "luma_of (negotiated 3 1) = [0, 1]" "cb_of (negotiated 3 1) = []" "cr_of (negotiated 3 1) = []"
  unfolding luma_of_def cb_of_def cr_of_def negotiated_simps fits_3x1 (3,4) [unfolded negotiated_simps] sint_small
  by (rule luma_3x1 chroma_3x1)+

lemma offs_1x1:
  "luma_offsets 1 1 sw = []" "cb_offsets 1 1 sw sh = []" "cr_offsets 1 1 sw sh = []"
  by (simp_all add: luma_offsets_def luma_row_offsets_def cb_offsets_def cr_offsets_def)

lemma of_1x1:
  "luma_of (negotiated 1 1) = []" "cb_of (negotiated 1 1) = []" "cr_of (negotiated 1 1) = []"
  unfolding luma_of_def cb_of_def cr_of_def negotiated_simps sint_small
  by (rule offs_1x1)+

subsection \<open>The table index (claim C10)\<close>

text \<open>
  The index without the mask equals the masked one: the accumulator shifted right by 24 and
  the byte both fit eight bits.
\<close>

lemma linear_pos_planar: "linear_pos c b = planar_pos c b"
proof -
  have m: "(0xFF :: u32) = mask 8" by (simp add: mask_eq_exp_minus_1)
  show ?thesis
    unfolding linear_pos_def planar_pos_def m
    by (rule bit_word_eqI) (auto simp: bit_simps dest: bit_imp_le_length)
qed

lemma planar_pos_lt: "unat (planar_pos c b) < 256"
proof -
  have "unat (planar_pos c b) \<le> unat (0xFF :: u32)"
    unfolding planar_pos_def by (rule word_and_le1 [THEN word_le_nat_alt [THEN iffD1]])
  then show ?thesis by simp
qed

text \<open>
  Claim C10. For every 32-bit accumulator value and every byte, the table index the linear
  path computes without a byte mask, \<open>(CRC >> 24) XOR b\<close>, is below 256, and the
  per-byte update of the linear path is the same function as the update of the planar path,
  which masks the index with \<open>0xFF\<close>.
\<close>

theorem linear_index_in_table: "unat (linear_pos c b) < 256 \<and> linear_update T c b = planar_update T c b"
  by (simp add: linear_update_def planar_update_def linear_pos_planar planar_pos_lt)

subsection \<open>Table generation (claim C5)\<close>

text \<open>
  The loops of \<open>gst_videocrc_init_crc32bit_table\<close>, one step at a time, against
  the entry as the specification words it.
\<close>

lemma topbit: "(r AND TOPBIT \<noteq> 0) = bit (r::u32) 31"
proof -
  have "TOPBIT = 2 ^ 31" by (simp add: TOPBIT_def)
  moreover have "(r AND 2 ^ 31 = 0) = (\<not> bit r 31)" by (rule and_exp_eq_0_iff_not_bit)
  ultimately show ?thesis by (simp only: not_not)
qed

lemma bits_step:
  "j < 8 \<Longrightarrow> crc32bit_bits p j r = crc32bit_bits p (j + 1) (remainder_step p r)"
  by (subst crc32bit_bits.simps) (simp only: remainder_step_def topbit if_True)

lemma bits_done: "\<not> j < 8 \<Longrightarrow> crc32bit_bits p j r = r"
  by (subst crc32bit_bits.simps) (simp only: if_False)

lemma bits_funpow: "j \<le> 8 \<Longrightarrow> crc32bit_bits p j r = (remainder_step p ^^ (8 - j)) r"
proof (induction "8 - j" arbitrary: j r)
  case 0
  then show ?case by (simp add: bits_done)
next
  case (Suc n)
  then have j: "j < 8" and n: "n = 8 - (j + 1)" and le: "j + 1 \<le> 8" by simp_all
  have "crc32bit_bits p j r = crc32bit_bits p (j + 1) (remainder_step p r)"
    using j by (rule bits_step)
  also have "\<dots> = (remainder_step p ^^ n) (remainder_step p r)"
    using Suc.hyps(1) [OF n le] n by simp
  also have "\<dots> = (remainder_step p ^^ (8 - j)) r"
    using Suc.hyps(2) [symmetric] by (simp add: funpow_swap1)
  finally show ?case .
qed

lemma entries_step:
  "i < 256 \<Longrightarrow> crc32bit_entries p i t =
     crc32bit_entries p (i + 1) (t[i := table_entry_spec p i])"
  by (subst crc32bit_entries.simps) (simp add: bits_funpow table_entry_spec_def)

lemma entries_done: "\<not> i < 256 \<Longrightarrow> crc32bit_entries p i t = t"
  by (subst crc32bit_entries.simps) (simp only: if_False)

lemma entries_length: "length (crc32bit_entries p i t) = length t"
proof (induction "256 - i" arbitrary: i t)
  case 0
  then show ?case by (simp add: entries_done)
next
  case (Suc n)
  then have i: "i < 256" and n: "n = 256 - (i + 1)" by simp_all
  show ?case using Suc.hyps(1) [OF n] by (simp add: entries_step [OF i])
qed

lemma entries_nth:
  "length t = 256 \<Longrightarrow> k < 256 \<Longrightarrow>
   crc32bit_entries p i t ! k = (if i \<le> k then table_entry_spec p k else t ! k)"
proof (induction "256 - i" arbitrary: i t)
  case 0
  then show ?case by (simp add: entries_done)
next
  case (Suc n)
  then have i: "i < 256" and n: "n = 256 - (i + 1)" by simp_all
  have l: "length (t[i := table_entry_spec p i]) = 256" using Suc.prems by simp
  show ?case
    using Suc.hyps(1) [OF n l Suc.prems(2)] Suc.prems
    by (cases "k = i") (auto simp: entries_step [OF i] nth_list_update)
qed

text \<open>
  Claim C5. For every 32-bit polynomial \<open>p\<close>, the table generator leaves a
  256-entry table whose entry \<open>i\<close>, for every \<open>i < 256\<close>, is the
  result of seeding a 32-bit remainder with \<open>i << 24\<close> and performing 8 steps of:
  shift left by one, and exclusive-or with \<open>p\<close> when the top bit was set. The
  arithmetic is on 32-bit words; the result is a function of \<open>p\<close> alone.
\<close>

theorem table_entries:
  "length (crc32bit_table v) = 256 \<Longrightarrow>
   length (crc32bit_table (gst_videocrc_init_crc32bit_table (v\<lparr>crc_mask := p\<rparr>))) = 256 \<and>
   (\<forall>i<256. crc32bit_table (gst_videocrc_init_crc32bit_table (v\<lparr>crc_mask := p\<rparr>)) ! i
        = table_entry_spec p i)"
  by (simp add: gst_videocrc_init_crc32bit_table_def entries_length entries_nth)

subsection \<open>The location property (claim C7)\<close>

text \<open>
  Claim C7. In every lifecycle state other than \<open>GST_STATE_READY\<close> and
  \<open>GST_STATE_NULL\<close>, setting the location is rejected:
  \<open>gst_videocrc_set_location\<close> returns \<open>FALSE\<close> and leaves the
  instance, the stored path included, unchanged. In the two permitted states it returns
  \<open>TRUE\<close> and the new path, or \<open>NULL\<close>, replaces the old one.
\<close>

theorem set_location_guard:
  "(state v \<noteq> GST_STATE_READY \<and> state v \<noteq> GST_STATE_NULL \<longrightarrow>
      gst_videocrc_set_location v loc = (False, v)) \<and>
   (state v = GST_STATE_READY \<or> state v = GST_STATE_NULL \<longrightarrow>
      gst_videocrc_set_location v loc = (True, v\<lparr>filename := loc\<rparr>))"
  by (auto simp: gst_videocrc_set_location_def split: option.splits)

subsection \<open>The mask property (claim C8)\<close>

text \<open>
  Claim C8. Writing any value to the \<open>crc-mask\<close> property updates the field
  \<open>crc_mask\<close> and nothing else; the stored table stays as it was.
\<close>

theorem set_mask_keeps_table:
  "gst_videocrc_set_property v PROP_CRC_MASK x = v\<lparr>crc_mask := g_value_get_uint x\<rparr> \<and>
   crc32bit_table (gst_videocrc_set_property v PROP_CRC_MASK x) = crc32bit_table v"
  by (simp add: gst_videocrc_set_property_def PROP_CRC_MASK_def PROP_LOCATION_def)

subsection \<open>Witnesses for the table and the location property\<close>

text \<open>
  Eight steps, written out for evaluation.
\<close>

lemma funpow8: "(f ^^ 8) x = f (f (f (f (f (f (f (f x)))))))"
  by (simp add: numeral_eq_Suc)

text \<open>
  The default polynomial on the zero-filled instance: entry 255 is \<open>0xB1F740B4\<close>.
\<close>

theorem table_entries_witness:
  "length (crc32bit_table zeroed_instance) = 256
   \<and> length (crc32bit_table (gst_videocrc_init_crc32bit_table
         (zeroed_instance\<lparr>crc_mask := 0x04C11DB7\<rparr>))) = 256
   \<and> crc32bit_table (gst_videocrc_init_crc32bit_table
         (zeroed_instance\<lparr>crc_mask := 0x04C11DB7\<rparr>)) ! 255 = table_entry_spec 0x04C11DB7 255
   \<and> table_entry_spec 0x04C11DB7 255 = 0xB1F740B4"
proof -
  have h: "length (crc32bit_table zeroed_instance) = 256"
    by (simp add: zeroed_instance_def)
  have e: "table_entry_spec 0x04C11DB7 255 = 0xB1F740B4"
    by (simp add: table_entry_spec_def funpow8 remainder_step_def)
  show ?thesis using h e table_entries [OF h, of "0x04C11DB7"] by simp
qed

text \<open>
  While playing, a new location is rejected and the old one stays; when ready,
  \<open>NULL\<close> replaces it.
\<close>

theorem set_location_witness:
  "state (zeroed_instance\<lparr>state := GST_STATE_PLAYING, filename := Some ''old.log''\<rparr>) \<noteq> GST_STATE_READY
   \<and> state (zeroed_instance\<lparr>state := GST_STATE_PLAYING, filename := Some ''old.log''\<rparr>) \<noteq> GST_STATE_NULL
   \<and> gst_videocrc_set_location
         (zeroed_instance\<lparr>state := GST_STATE_PLAYING, filename := Some ''old.log''\<rparr>)
         (Some ''new.log'')
       = (False, zeroed_instance\<lparr>state := GST_STATE_PLAYING, filename := Some ''old.log''\<rparr>)
   \<and> state (zeroed_instance\<lparr>state := GST_STATE_READY, filename := Some ''old.log''\<rparr>) = GST_STATE_READY
   \<and> gst_videocrc_set_location
         (zeroed_instance\<lparr>state := GST_STATE_READY, filename := Some ''old.log''\<rparr>) None
       = (True, zeroed_instance\<lparr>state := GST_STATE_READY, filename := None\<rparr>)"
  using set_location_guard [of "zeroed_instance\<lparr>state := GST_STATE_PLAYING, filename := Some ''old.log''\<rparr>"
               "Some ''new.log''"]
        set_location_guard [of "zeroed_instance\<lparr>state := GST_STATE_READY, filename := Some ''old.log''\<rparr>" None]
  by simp

subsection \<open>Luma coverage (claim C4)\<close>

text \<open>
  Claim C4 on an odd width. After a format of width 3 and height 1 was negotiated, the luma
  pass reads the offsets 0 and 1 of row 0 and stops: \<open>width >> 1\<close> is 1, so the
  byte of column 2, at offset 2, is never fed to the table update.
\<close>

theorem luma_odd_width:
  "map_sum id (offsets_of Luma) (ion_checksum (negotiated 3 1) (Some (replicate 6144 0))) = Inr [0, 1]"
proof -
  have "list_all (in_view (replicate 6144 0)) ([0, 1] @ [] @ [])"
    by (simp add: in_view_def)
  then have "map_sum id reads (ion_checksum (negotiated 3 1) (Some (replicate 6144 0))) =
     Inr (map (Pair Luma) [0, 1] @ map (Pair Cb) [] @ map (Pair Cr) [])"
    using ion_ok [OF fits_3x1(1), of "replicate 6144 0"]
    by (simp add: of_3x1)
  then show ?thesis
    by (cases "ion_checksum (negotiated 3 1) (Some (replicate 6144 0))")
       (auto simp: offsets_of_def)
qed

subsection \<open>Evaluation on example frames\<close>

text \<open>
  The checksum of a negotiated 2x2 frame over zero bytes, one table update at a time.
\<close>

lemma ion_2x2:
  "ion_checksum (negotiated 2 2) (Some (replicate 6144 0)) =
     Inr \<lparr>CRC = cascade (crc32bit_table (negotiated 2 2)) [0, 0, 0, 0] [0] [0],
          reads = [(Luma, 0), (Luma, 1), (Luma, 128), (Luma, 129), (Cb, 4096), (Cr, 4097)]\<rparr>"
proof -
  have "list_all (in_view (replicate 6144 0)) (luma_of (negotiated 2 2) @ cb_of (negotiated 2 2)
          @ cr_of (negotiated 2 2))"
    by (simp add: of_2x2 in_view_def)
  from ion_ok [OF fits_2x2(1) this] show ?thesis by (simp add: of_2x2 bytes_at_def)
qed

lemma negotiated_table:
  "k < 256 \<Longrightarrow> crc32bit_table (negotiated w h) ! k = table_entry_spec 0x04C11DB7 k"
  by (simp add: negotiated_def gst_videocrc_set_info_def Let_def gst_videocrc_init_def
        gst_videocrc_init_crc32bit_table_def gst_videocrc_reset_def zeroed_instance_def
        GST_VIDEO_DEFAULT_CRC_MASK_def entries_nth)

lemma update_negotiated:
  "planar_update (crc32bit_table (negotiated w h)) c b =
     push_bit 8 c XOR table_entry_spec 0x04C11DB7 (unat (planar_pos c b))"
  by (simp add: planar_update_def negotiated_table planar_pos_lt)

lemma not_zero: "NOT (0 :: u32) = 0xFFFFFFFF" by simp

lemma not_after_cb: "NOT (0x4E08BFB4 :: u32) = 0xB1F7404B" by simp

lemma update_luma_zero: "planar_update (crc32bit_table (negotiated 2 2)) 0 0 = 0"
  by (simp add: update_negotiated planar_pos_def table_entry_spec_def funpow8 remainder_step_def)

lemma pos_cb_zero: "unat (planar_pos 0xFFFFFFFF 0) = 255"
  by (simp add: planar_pos_def)

lemma update_cb_zero: "planar_update (crc32bit_table (negotiated 2 2)) 0xFFFFFFFF 0 = 0x4E08BFB4"
  by (simp add: update_negotiated pos_cb_zero table_entry_spec_def funpow8 remainder_step_def)

lemma pos_cr_zero: "unat (planar_pos 0xB1F7404B 0) = 177"
  by (simp add: planar_pos_def)

lemma update_cr_zero: "planar_update (crc32bit_table (negotiated 2 2)) 0xB1F7404B 0 = 0x4EBFDBC9"
  by (simp add: update_negotiated pos_cr_zero table_entry_spec_def funpow8 remainder_step_def)

lemma not_after_cr: "NOT (0x4EBFDBC9 :: u32) = 0xB1402436" by simp

lemma crc_2x2:
  "NOT (table_updates (crc32bit_table (negotiated 2 2)) [0]
     (NOT (table_updates (crc32bit_table (negotiated 2 2)) [0]
     (NOT (table_updates (crc32bit_table (negotiated 2 2)) [0, 0, 0, 0] 0))))) = 0xB1402436"
  unfolding table_updates_def fold_simps id_apply o_apply update_luma_zero not_zero update_cb_zero not_after_cb update_cr_zero not_after_cr by (rule refl)

lemma run_2x2:
  "ion_checksum (negotiated 2 2) (Some (replicate 6144 0)) =
     Inr \<lparr>CRC = 0xB1402436,
          reads = [(Luma, 0), (Luma, 1), (Luma, 128), (Luma, 129), (Cb, 4096), (Cr, 4097)]\<rparr>"
  using ion_2x2 unfolding cascade_def crc_2x2 .

subsection \<open>Chroma offsets (claim C1)\<close>

text \<open>
  Claim C1 as stated fails. After an NV12 format of 2x2 pixels was negotiated, the stored
  second-plane offset is 8, so the claim places the first Cb sample at 8; the traversal reads
  it at 4096, which is \<open>stride_w * stride_h\<close>.
\<close>

theorem chroma_offset_counterexample:
  "map_sum id (offsets_of Cb) (ion_checksum (negotiated 2 2) (Some (replicate 6144 0))) = Inr [4096]
   \<and> sint (offset (negotiated 2 2) + 0 * stride_w (negotiated 2 2) + 0) = 8"
proof -
  have "offset (negotiated 2 2) = 8"
    by (simp add: negotiated_def gst_videocrc_set_info_def nv12_info_def Let_def)
  then show ?thesis by (simp add: run_2x2 offsets_of_def)
qed

text \<open>
  The geometry and the reads of the traversal after a negotiation, for a view that holds the
  padded frame.
\<close>

lemma negotiated_run:
  assumes "0 < sint (vi_width in_info)" and "0 < sint (vi_height in_info)"
    and "padded_extent (sint (vi_width in_info)) (sint (vi_height in_info)) < 2 ^ 31"
    and "padded_extent (sint (vi_width in_info)) (sint (vi_height in_info)) \<le> int (length view)"
  shows "\<exists>c. ion_checksum (snd (gst_videocrc_set_info vc in_info)) (Some view) =
     Inr \<lparr>CRC = c,
          reads =
            map (Pair Luma) (luma_offsets (sint (vi_width in_info)) (sint (vi_height in_info))
               (round_up (sint (vi_width in_info)) 128))
            @ map (Pair Cb) (cb_offsets (sint (vi_width in_info)) (sint (vi_height in_info))
               (round_up (sint (vi_width in_info)) 128) (round_up (sint (vi_height in_info)) 32))
            @ map (Pair Cr) (cr_offsets (sint (vi_width in_info)) (sint (vi_height in_info))
               (round_up (sint (vi_width in_info)) 128) (round_up (sint (vi_height in_info)) 32))\<rparr>"
    and "list_all (in_view view)
          (luma_offsets (sint (vi_width in_info)) (sint (vi_height in_info))
               (round_up (sint (vi_width in_info)) 128)
           @ cb_offsets (sint (vi_width in_info)) (sint (vi_height in_info))
               (round_up (sint (vi_width in_info)) 128) (round_up (sint (vi_height in_info)) 32)
           @ cr_offsets (sint (vi_width in_info)) (sint (vi_height in_info))
               (round_up (sint (vi_width in_info)) 128) (round_up (sint (vi_height in_info)) 32))"
proof -
  let ?v = "snd (gst_videocrc_set_info vc in_info)"
  note g = negotiated_fits [OF assms(1,2,3), of vc]
  have e: "planar_extent ?v \<le> int (length view)" unfolding g(3) by (rule assms(4))
  note i = fits_in_view [OF g(4) e]
  note o = ion_ok [OF g(4) i]
  have l: "luma_of ?v = luma_offsets (sint (vi_width in_info)) (sint (vi_height in_info))
               (round_up (sint (vi_width in_info)) 128)"
    and u: "cb_of ?v = cb_offsets (sint (vi_width in_info)) (sint (vi_height in_info))
               (round_up (sint (vi_width in_info)) 128) (round_up (sint (vi_height in_info)) 32)"
    and w: "cr_of ?v = cr_offsets (sint (vi_width in_info)) (sint (vi_height in_info))
               (round_up (sint (vi_width in_info)) 128) (round_up (sint (vi_height in_info)) 32)"
    unfolding luma_of_def cb_of_def cr_of_def g(1,2) by (simp_all add: set_info_geometry)
  from o show "\<exists>c. ion_checksum ?v (Some view) =
     Inr \<lparr>CRC = c,
          reads =
            map (Pair Luma) (luma_offsets (sint (vi_width in_info)) (sint (vi_height in_info))
               (round_up (sint (vi_width in_info)) 128))
            @ map (Pair Cb) (cb_offsets (sint (vi_width in_info)) (sint (vi_height in_info))
               (round_up (sint (vi_width in_info)) 128) (round_up (sint (vi_height in_info)) 32))
            @ map (Pair Cr) (cr_offsets (sint (vi_width in_info)) (sint (vi_height in_info))
               (round_up (sint (vi_width in_info)) 128) (round_up (sint (vi_height in_info)) 32))\<rparr>"
    unfolding l u w by blast
  from i show "list_all (in_view view)
          (luma_offsets (sint (vi_width in_info)) (sint (vi_height in_info))
               (round_up (sint (vi_width in_info)) 128)
           @ cb_offsets (sint (vi_width in_info)) (sint (vi_height in_info))
               (round_up (sint (vi_width in_info)) 128) (round_up (sint (vi_height in_info)) 32)
           @ cr_offsets (sint (vi_width in_info)) (sint (vi_height in_info))
               (round_up (sint (vi_width in_info)) 128) (round_up (sint (vi_height in_info)) 32))"
    unfolding l u w .
qed

text \<open>
  Claim C1, amended. Let a format of width \<open>W > 0\<close> and height \<open>H > 0\<close> be negotiated, with
  \<open>stride_w\<close> the width rounded up to a multiple of 128 and \<open>stride_h\<close> the height rounded up to
  a multiple of 32, and let the padded frame of \<open>stride_w * (stride_h + H / 2)\<close> bytes be below
  \<open>2^31\<close> bytes (so that no \<open>gint\<close> computation overflows) and fit the mapped view. Then the
  stored strides have these values, the planar traversal completes, and the Cb samples it
  reads are, in order, exactly those at \<open>stride_w * stride_h + i * stride_w + j\<close> for every
  chroma row \<open>0 \<le> i < H / 2\<close> and every even column \<open>0 \<le> j < W\<close>, and the Cr samples those at
  that offset plus 1. The second-plane offset stored at negotiation does not occur.
\<close>

theorem planar_chroma_offsets:
  assumes "0 < sint (vi_width in_info)" and "0 < sint (vi_height in_info)"
    and "padded_extent (sint (vi_width in_info)) (sint (vi_height in_info)) < 2 ^ 31"
    and "padded_extent (sint (vi_width in_info)) (sint (vi_height in_info)) \<le> int (length view)"
  shows "sint (stride_w (snd (gst_videocrc_set_info vc in_info)))
           = round_up (sint (vi_width in_info)) 128
       \<and> sint (stride_h (snd (gst_videocrc_set_info vc in_info)))
           = round_up (sint (vi_height in_info)) 32
       \<and> map_sum id (offsets_of Cb)
           (ion_checksum (snd (gst_videocrc_set_info vc in_info)) (Some view)) =
         Inr (cb_offsets (sint (vi_width in_info)) (sint (vi_height in_info))
                (round_up (sint (vi_width in_info)) 128) (round_up (sint (vi_height in_info)) 32))
       \<and> map_sum id (offsets_of Cr)
           (ion_checksum (snd (gst_videocrc_set_info vc in_info)) (Some view)) =
         Inr (cr_offsets (sint (vi_width in_info)) (sint (vi_height in_info))
                (round_up (sint (vi_width in_info)) 128) (round_up (sint (vi_height in_info)) 32))"
proof -
  from negotiated_run(1) [OF assms, of vc] obtain c where
    r: "ion_checksum (snd (gst_videocrc_set_info vc in_info)) (Some view) =
     Inr \<lparr>CRC = c,
          reads =
            map (Pair Luma) (luma_offsets (sint (vi_width in_info)) (sint (vi_height in_info))
               (round_up (sint (vi_width in_info)) 128))
            @ map (Pair Cb) (cb_offsets (sint (vi_width in_info)) (sint (vi_height in_info))
               (round_up (sint (vi_width in_info)) 128) (round_up (sint (vi_height in_info)) 32))
            @ map (Pair Cr) (cr_offsets (sint (vi_width in_info)) (sint (vi_height in_info))
               (round_up (sint (vi_width in_info)) 128) (round_up (sint (vi_height in_info)) 32))\<rparr>"
    by blast
  note g = negotiated_fits(1,2) [OF assms(1,2,3), of vc]
  show ?thesis unfolding r g
    by (simp add: offsets_of_tagged [where r = "\<lparr>CRC = c, reads = _\<rparr>", OF crc_run.select_convs(2)])
qed

text \<open>
  A 2x2 format negotiated on the constructed instance, over a view of 6144 zero bytes: the
  strides are 128 and 32, Cb is read at 4096 and Cr at 4097.
\<close>

theorem planar_chroma_offsets_witness:
  "0 < sint (vi_width (nv12_info 2 2)) \<and> 0 < sint (vi_height (nv12_info 2 2))
   \<and> padded_extent (sint (vi_width (nv12_info 2 2))) (sint (vi_height (nv12_info 2 2))) < 2 ^ 31
   \<and> padded_extent (sint (vi_width (nv12_info 2 2))) (sint (vi_height (nv12_info 2 2)))
       \<le> int (length (replicate 6144 (0 :: u8)))
   \<and> sint (stride_w (snd (gst_videocrc_set_info (gst_videocrc_init zeroed_instance) (nv12_info 2 2))))
       = 128
   \<and> sint (stride_h (snd (gst_videocrc_set_info (gst_videocrc_init zeroed_instance) (nv12_info 2 2))))
       = 32
   \<and> map_sum id (offsets_of Cb)
       (ion_checksum (snd (gst_videocrc_set_info (gst_videocrc_init zeroed_instance) (nv12_info 2 2)))
          (Some (replicate 6144 0))) = Inr [4096]
   \<and> map_sum id (offsets_of Cr)
       (ion_checksum (snd (gst_videocrc_set_info (gst_videocrc_init zeroed_instance) (nv12_info 2 2)))
          (Some (replicate 6144 0))) = Inr [4097]"
proof -
  have h: "0 < sint (vi_width (nv12_info 2 2))" "0 < sint (vi_height (nv12_info 2 2))"
    "padded_extent (sint (vi_width (nv12_info 2 2))) (sint (vi_height (nv12_info 2 2))) < 2 ^ 31"
    "padded_extent (sint (vi_width (nv12_info 2 2))) (sint (vi_height (nv12_info 2 2)))
       \<le> int (length (replicate 6144 (0 :: u8)))"
    by (simp_all add: nv12_simps sint_small extent_small)
  note c = planar_chroma_offsets [OF h, of "gst_videocrc_init zeroed_instance",
      unfolded nv12_simps sint_small round_up_small offs_2x2]
  show ?thesis by (intro conjI h c [THEN conjunct1] c [THEN conjunct2, THEN conjunct1]
        c [THEN conjunct2, THEN conjunct2, THEN conjunct1]
        c [THEN conjunct2, THEN conjunct2, THEN conjunct2])
qed

subsection \<open>Reads and the bound of the view (claim C2)\<close>

text \<open>
  Claim C2 as stated fails. The negotiated NV12 format of 2x2 pixels has a total size of 12
  bytes; over a mapped view of 12 bytes the second luma row is read at offset 128, outside the
  view, and nothing in the traversal checks it.
\<close>

theorem planar_reads_counterexample:
  "ion_checksum (negotiated 2 2) (Some (replicate 12 0)) = Inl (OutOfRange 128)
   \<and> size' (negotiated 2 2) = 12 \<and> \<not> in_view (replicate 12 0) 128"
proof -
  have "ion_checksum (negotiated 2 2) (Some (replicate 12 0)) = Inl (OutOfRange 128)"
    by (rule ion_small_view [OF fits_2x2(1), where xs = "[0, 1]" and ys = "[129]"])
       (simp_all add: of_2x2 in_view_def)
  moreover have "size' (negotiated 2 2) = 12"
    by (simp add: negotiated_def gst_videocrc_set_info_def nv12_info_def Let_def)
  ultimately show ?thesis by (simp add: in_view_def)
qed

text \<open>
  Claim C2, amended. The traversal checks no offset against the size of the mapped region. Let
  a format of width \<open>W > 0\<close> and height \<open>H > 0\<close> be negotiated, with \<open>stride_w\<close> the width rounded
  up to a multiple of 128 and \<open>stride_h\<close> the height rounded up to a multiple of 32. If the
  padded frame of \<open>stride_w * (stride_h + H / 2)\<close> bytes is below \<open>2^31\<close> bytes and the mapped
  region holds at least that many bytes, then the planar traversal completes and every offset
  it reads, luma and chroma, is at least 0 and strictly below the size of the mapped region.
\<close>

theorem planar_reads_in_view:
  assumes "0 < sint (vi_width in_info)" and "0 < sint (vi_height in_info)"
    and "padded_extent (sint (vi_width in_info)) (sint (vi_height in_info)) < 2 ^ 31"
    and "padded_extent (sint (vi_width in_info)) (sint (vi_height in_info)) \<le> int (length view)"
  shows "\<exists>r. ion_checksum (snd (gst_videocrc_set_info vc in_info)) (Some view) = Inr r
           \<and> list_all (\<lambda>(s, off). 0 \<le> off \<and> off < int (length view)) (reads r)"
proof -
  from negotiated_run(1) [OF assms, of vc] obtain c where
    r: "ion_checksum (snd (gst_videocrc_set_info vc in_info)) (Some view) =
     Inr \<lparr>CRC = c,
          reads =
            map (Pair Luma) (luma_offsets (sint (vi_width in_info)) (sint (vi_height in_info))
               (round_up (sint (vi_width in_info)) 128))
            @ map (Pair Cb) (cb_offsets (sint (vi_width in_info)) (sint (vi_height in_info))
               (round_up (sint (vi_width in_info)) 128) (round_up (sint (vi_height in_info)) 32))
            @ map (Pair Cr) (cr_offsets (sint (vi_width in_info)) (sint (vi_height in_info))
               (round_up (sint (vi_width in_info)) 128) (round_up (sint (vi_height in_info)) 32))\<rparr>"
    by blast
  from negotiated_run(2) [OF assms] show ?thesis unfolding r
    by (simp add: list_all_iff in_view_def) blast
qed

text \<open>
  A negotiated 2x2 frame needs 128 * (32 + 1) = 4224 bytes; a view of 6144 bytes has them, and
  the six offsets read are below 6144.
\<close>

theorem planar_reads_in_view_witness:
  "0 < sint (vi_width (nv12_info 2 2)) \<and> 0 < sint (vi_height (nv12_info 2 2))
   \<and> padded_extent (sint (vi_width (nv12_info 2 2))) (sint (vi_height (nv12_info 2 2))) < 2 ^ 31
   \<and> padded_extent (sint (vi_width (nv12_info 2 2))) (sint (vi_height (nv12_info 2 2)))
       \<le> int (length (replicate 6144 (0 :: u8)))
   \<and> (\<exists>r. ion_checksum (snd (gst_videocrc_set_info (gst_videocrc_init zeroed_instance) (nv12_info 2 2)))
             (Some (replicate 6144 0)) = Inr r
           \<and> list_all (\<lambda>(s, off). 0 \<le> off \<and> off < int (length (replicate 6144 (0 :: u8))))
                (reads r))
   \<and> map_sum id reads
       (ion_checksum (snd (gst_videocrc_set_info (gst_videocrc_init zeroed_instance) (nv12_info 2 2)))
             (Some (replicate 6144 0)))
       = Inr [(Luma, 0), (Luma, 1), (Luma, 128), (Luma, 129), (Cb, 4096), (Cr, 4097)]"
proof -
  have h: "0 < sint (vi_width (nv12_info 2 2))" "0 < sint (vi_height (nv12_info 2 2))"
    "padded_extent (sint (vi_width (nv12_info 2 2))) (sint (vi_height (nv12_info 2 2))) < 2 ^ 31"
    "padded_extent (sint (vi_width (nv12_info 2 2))) (sint (vi_height (nv12_info 2 2)))
       \<le> int (length (replicate 6144 (0 :: u8)))"
    by (simp_all add: nv12_simps sint_small extent_small)
  note c = planar_reads_in_view [OF h, of "gst_videocrc_init zeroed_instance"]
  have e: "map_sum id reads
       (ion_checksum (snd (gst_videocrc_set_info (gst_videocrc_init zeroed_instance) (nv12_info 2 2)))
             (Some (replicate 6144 0)))
       = Inr [(Luma, 0), (Luma, 1), (Luma, 128), (Luma, 129), (Cb, 4096), (Cr, 4097)]"
    using run_2x2 by (simp add: negotiated_def)
  show ?thesis by (intro conjI h c e)
qed

subsection \<open>The cascade (claim C3)\<close>

text \<open>
  Claim C3. For every hardware-backed frame whose mapping succeeded, on an instance whose
  geometry is in range (width and height not negative, \<open>stride_w\<close> even and not below the
  width, \<open>stride_h\<close> not below the height, the padded frame of
  \<open>stride_w * (stride_h + height / 2)\<close> bytes below \<open>2^31\<close> bytes) and whose mapped view holds the
  padded frame, the per-frame step returns \<open>GST_FLOW_OK\<close>, and the checksum it stores and
  prints is the three-stage cascade over the bytes of the view: the accumulator starts at 0
  and takes the table update of every luma byte, is complemented, continues with the Cb bytes
  from that complemented value, is complemented, continues with the Cr bytes, and is
  complemented once more; that value is the frame's checksum.
\<close>

theorem planar_cascade:
  assumes "ion_meta buf = Some m" and "mmap_result buf = Some view"
    and "planar_fits v" and "planar_extent v \<le> int (length view)"
  shows "gst_videocrc_transform_frame_ip v buf =
     Inr (GST_FLOW_OK,
          (frame_num v + 1,
           NOT (table_updates (crc32bit_table v) (bytes_at view (cr_of v))
             (NOT (table_updates (crc32bit_table v) (bytes_at view (cb_of v))
               (NOT (table_updates (crc32bit_table v) (bytes_at view (luma_of v)) 0)))))),
          emitted v
            (NOT (table_updates (crc32bit_table v) (bytes_at view (cr_of v))
              (NOT (table_updates (crc32bit_table v) (bytes_at view (cb_of v))
                (NOT (table_updates (crc32bit_table v) (bytes_at view (luma_of v)) 0)))))))"
proof -
  note o = ion_ok [OF assms(3) fits_in_view [OF assms(3,4)], folded assms(2)]
  from transform_ion [OF assms(1) o] show ?thesis by (simp add: cascade_def)
qed

text \<open>
  A negotiated 2x2 frame over 6144 zero bytes: four luma bytes, one Cb byte, one Cr byte, and
  the checksum \<open>0xB1402436\<close> in record 1.
\<close>

theorem planar_cascade_witness:
  "ion_meta zero_frame = Some \<lparr>ion_fd = 3, ion_size = 6144, ion_offset = 0\<rparr>
   \<and> mmap_result zero_frame = Some (replicate 6144 0)
   \<and> planar_fits (negotiated 2 2)
   \<and> planar_extent (negotiated 2 2) \<le> int (length (replicate 6144 (0 :: u8)))
   \<and> bytes_at (replicate 6144 0) (luma_of (negotiated 2 2)) = [0, 0, 0, 0]
   \<and> bytes_at (replicate 6144 0) (cb_of (negotiated 2 2)) = [0]
   \<and> bytes_at (replicate 6144 0) (cr_of (negotiated 2 2)) = [0]
   \<and> gst_videocrc_transform_frame_ip (negotiated 2 2) zero_frame =
       Inr (GST_FLOW_OK, (1, 0xB1402436), emitted (negotiated 2 2) 0xB1402436)"
proof -
  have m: "ion_meta zero_frame = Some \<lparr>ion_fd = 3, ion_size = 6144, ion_offset = 0\<rparr>"
    and d: "mmap_result zero_frame = Some (replicate 6144 0)"
    by (simp_all add: zero_frame_def)
  have e: "planar_extent (negotiated 2 2) \<le> int (length (replicate 6144 (0 :: u8)))"
    by (simp add: fits_2x2)
  have b: "bytes_at (replicate 6144 0) (luma_of (negotiated 2 2)) = [0, 0, 0, 0]"
    "bytes_at (replicate 6144 0) (cb_of (negotiated 2 2)) = [0]"
    "bytes_at (replicate 6144 0) (cr_of (negotiated 2 2)) = [0]"
    by (simp_all add: bytes_at_def of_2x2)
  have f: "frame_num (negotiated 2 2) + 1 = 1" by (simp add: negotiated_simps)
  note c = planar_cascade [OF m d fits_2x2(1) e, unfolded b crc_2x2 f]
  show ?thesis by (intro conjI m d fits_2x2(1) e b c)
qed

subsection \<open>A failed mapping (claim C6)\<close>

text \<open>
  With a failed mapping, a geometry of at least two columns and one row faults at the first
  luma read, whatever the other fields hold.
\<close>

lemma luma_first_read:
  assumes "2 \<le> sint (width v)" and "1 \<le> sint (height v)"
  shows "ion_checksum v None = Inl (BadMapping 0)"
proof -
  have h: "(0 :: gint) <s height v" using assms(2) by (simp add: sless_sint)
  have w: "(0 :: gint) <s signed_drop_bit 1 (width v)"
    unfolding guard_shift using assms(1) by simp
  have c: "luma_cols T None (width v) (stride_w v) 0 0 0 r = Inl (BadMapping 0)" for T r
    unfolding luma_cols_step [OF w] by (simp add: peek_def)
  have "luma_rows T None (width v) (height v) (stride_w v) 0 r = Inl (BadMapping 0)" for T r
    unfolding luma_rows_step [OF h] c by simp
  then show ?thesis by (simp add: ion_checksum_def Let_def)
qed

lemma transform_ok_only:
  "gst_videocrc_transform_frame_ip v buf = Inr (ret, line, v') \<Longrightarrow> ret = GST_FLOW_OK"
  by (auto simp: gst_videocrc_transform_frame_ip_def Let_def split: option.splits sum.splits)

text \<open>
  After a format of 1x1 pixels was negotiated no pass reads a byte.
\<close>

lemma unmapped_1x1:
  "gst_videocrc_transform_frame_ip (negotiated 1 1) unmapped_frame =
       Inr (GST_FLOW_OK, (1, 0xFFFFFFFF), emitted (negotiated 1 1) 0xFFFFFFFF)"
proof -
  have m: "ion_meta unmapped_frame = Some \<lparr>ion_fd = 3, ion_size = 6144, ion_offset = 0\<rparr>"
    and d: "mmap_result unmapped_frame = None"
    by (simp_all add: unmapped_frame_def)
  have "ion_checksum (negotiated 1 1) (mmap_result unmapped_frame) =
          Inr \<lparr>CRC = 0xFFFFFFFF, reads = []\<rparr>"
    unfolding d ion_unmapped [OF fits_1x1(1)] by (simp add: of_1x1)
  from transform_ion [OF m this] show ?thesis by (simp add: negotiated_simps)
qed

text \<open>
  Claim C6 as stated fails. After a format of 1x1 pixels was negotiated, for a frame whose
  mapping failed, per-frame processing returns \<open>GST_FLOW_OK\<close> and prints a record with frame
  index 1 and checksum \<open>0xFFFFFFFF\<close>.
\<close>

theorem map_failure_counterexample:
  "mmap_result unmapped_frame = None
   \<and> gst_videocrc_transform_frame_ip (negotiated 1 1) unmapped_frame =
       Inr (GST_FLOW_OK, (1, 0xFFFFFFFF), emitted (negotiated 1 1) 0xFFFFFFFF)"
  using unmapped_1x1 by (simp add: unmapped_frame_def)

text \<open>
  Claim C6, amended. The result of the mapping is never checked and the per-frame operation
  never reports a processing failure. For every hardware-backed frame whose mapping failed:
  the operation never returns \<open>GST_FLOW_ERROR\<close>; when the width is at least 2 and the height at
  least 1, the first luma read dereferences the failed mapping at offset 0 (undefined
  behaviour, the fault \<open>BadMapping 0\<close>), so nothing is returned and no record is printed; and
  for a geometry in range, the operation faults in this way at the first offset of the
  traversal when there is one, and otherwise, when the traversal reads no byte, returns
  \<open>GST_FLOW_OK\<close>, increments the frame counter and prints a record with the checksum
  \<open>0xFFFFFFFF\<close>.
\<close>

theorem map_failure_not_reported:
  assumes "ion_meta buf = Some m" and "mmap_result buf = None"
  shows "(\<forall>line v'. gst_videocrc_transform_frame_ip v buf \<noteq> Inr (GST_FLOW_ERROR, line, v'))
       \<and> (2 \<le> sint (width v) \<and> 1 \<le> sint (height v) \<longrightarrow>
            gst_videocrc_transform_frame_ip v buf = Inl (BadMapping 0))
       \<and> (planar_fits v \<longrightarrow>
            gst_videocrc_transform_frame_ip v buf =
              (case luma_of v @ cb_of v @ cr_of v of
                 [] \<Rightarrow> Inr (GST_FLOW_OK, (frame_num v + 1, 0xFFFFFFFF), emitted v 0xFFFFFFFF)
               | off # offs \<Rightarrow> Inl (BadMapping off)))"
proof (intro conjI impI allI)
  fix line v'
  show "gst_videocrc_transform_frame_ip v buf \<noteq> Inr (GST_FLOW_ERROR, line, v')"
    using transform_ok_only [of v buf GST_FLOW_ERROR line v'] by auto
next
  assume "2 \<le> sint (width v) \<and> 1 \<le> sint (height v)"
  then have "ion_checksum v (mmap_result buf) = Inl (BadMapping 0)"
    unfolding assms(2) by (intro luma_first_read) simp_all
  from transform_ion_fault [OF assms(1) this]
  show "gst_videocrc_transform_frame_ip v buf = Inl (BadMapping 0)" .
next
  assume f: "planar_fits v"
  show "gst_videocrc_transform_frame_ip v buf =
              (case luma_of v @ cb_of v @ cr_of v of
                 [] \<Rightarrow> Inr (GST_FLOW_OK, (frame_num v + 1, 0xFFFFFFFF), emitted v 0xFFFFFFFF)
               | off # offs \<Rightarrow> Inl (BadMapping off))"
  proof (cases "luma_of v @ cb_of v @ cr_of v")
    case Nil
    then have "ion_checksum v (mmap_result buf) = Inr \<lparr>CRC = 0xFFFFFFFF, reads = []\<rparr>"
      unfolding assms(2) ion_unmapped [OF f] by simp
    from transform_ion [OF assms(1) this] show ?thesis unfolding Nil by simp
  next
    case (Cons off offs)
    then have "ion_checksum v (mmap_result buf) = Inl (BadMapping off)"
      unfolding assms(2) ion_unmapped [OF f] by simp
    from transform_ion_fault [OF assms(1) this] show ?thesis unfolding Cons by simp
  qed
qed

text \<open>
  A negotiated 2x2 frame whose mapping failed: the step ends in the fault of the first read,
  nothing is returned.
\<close>

theorem map_failure_not_reported_witness:
  "ion_meta unmapped_frame = Some \<lparr>ion_fd = 3, ion_size = 6144, ion_offset = 0\<rparr>
   \<and> mmap_result unmapped_frame = None
   \<and> 2 \<le> sint (width (negotiated 2 2)) \<and> 1 \<le> sint (height (negotiated 2 2))
   \<and> planar_fits (negotiated 2 2)
   \<and> luma_of (negotiated 2 2) @ cb_of (negotiated 2 2) @ cr_of (negotiated 2 2)
       = [0, 1, 128, 129, 4096, 4097]
   \<and> gst_videocrc_transform_frame_ip (negotiated 2 2) unmapped_frame = Inl (BadMapping 0)"
proof -
  have m: "ion_meta unmapped_frame = Some \<lparr>ion_fd = 3, ion_size = 6144, ion_offset = 0\<rparr>"
    and d: "mmap_result unmapped_frame = None"
    by (simp_all add: unmapped_frame_def)
  have g: "2 \<le> sint (width (negotiated 2 2))" "1 \<le> sint (height (negotiated 2 2))"
    by (simp_all add: negotiated_simps)
  have o: "luma_of (negotiated 2 2) @ cb_of (negotiated 2 2) @ cr_of (negotiated 2 2)
       = [0, 1, 128, 129, 4096, 4097]"
    by (simp add: of_2x2)
  note c = map_failure_not_reported [OF m d, of "negotiated 2 2"]
  from c [THEN conjunct2, THEN conjunct2, THEN mp, OF fits_2x2(1)]
  have t: "gst_videocrc_transform_frame_ip (negotiated 2 2) unmapped_frame = Inl (BadMapping 0)"
    unfolding o by simp
  show ?thesis by (intro conjI m d g fits_2x2(1) o t)
qed

subsection \<open>The frame counter (claim C9)\<close>

text \<open>
  One step on a frame the instance can process: it returns, counts and prints.
\<close>

lemma frame_fits_step:
  assumes "frame_fits v buf"
  shows "\<exists>c. gst_videocrc_transform_frame_ip v buf =
           Inr (GST_FLOW_OK, (frame_num v + 1, c), emitted v c)"
proof (cases "ion_meta buf")
  case None
  with assms have "length (map_data buf) < 2 ^ 31" by (simp add: frame_fits_def)
  from transform_linear [OF None this] show ?thesis by blast
next
  case (Some m)
  show ?thesis
  proof (cases "mmap_result buf")
    case None
    with assms Some have f: "planar_fits v" and e: "luma_of v @ cb_of v @ cr_of v = []"
      by (simp_all add: frame_fits_def)
    have "ion_checksum v (mmap_result buf) = Inr \<lparr>CRC = 0xFFFFFFFF, reads = []\<rparr>"
      unfolding None ion_unmapped [OF f] e by simp
    from transform_ion [OF Some this] show ?thesis by blast
  next
    case (Some view)
    with assms \<open>ion_meta buf = Some m\<close>
    have f: "planar_fits v" and e: "planar_extent v \<le> int (length view)"
      by (simp_all add: frame_fits_def)
    note o = ion_ok [OF f fits_in_view [OF f e], folded Some]
    from transform_ion [OF \<open>ion_meta buf = Some m\<close> o] show ?thesis by blast
  qed
qed

lemma geometry_emitted:
  "planar_fits (emitted v c) = planar_fits v" "planar_extent (emitted v c) = planar_extent v"
  "luma_of (emitted v c) = luma_of v" "cb_of (emitted v c) = cb_of v" "cr_of (emitted v c) = cr_of v"
  by (simp_all add: planar_fits_def planar_extent_def luma_of_def cb_of_def cr_of_def)

lemma geometry_reset:
  "planar_fits (gst_videocrc_reset v) = planar_fits v"
  "planar_extent (gst_videocrc_reset v) = planar_extent v"
  "luma_of (gst_videocrc_reset v) = luma_of v" "cb_of (gst_videocrc_reset v) = cb_of v"
  "cr_of (gst_videocrc_reset v) = cr_of v"
  by (simp_all add: planar_fits_def planar_extent_def luma_of_def cb_of_def cr_of_def
        gst_videocrc_reset_def)

lemma frame_fits_emitted: "frame_fits (emitted v c) buf = frame_fits v buf"
  unfolding frame_fits_def geometry_emitted by (rule refl)

lemma frame_fits_reset: "frame_fits (gst_videocrc_reset v) buf = frame_fits v buf"
  unfolding frame_fits_def geometry_reset by (rule refl)

lemma process_frames_indices:
  "list_all (frame_fits v) bufs \<Longrightarrow>
   \<exists>printed v'. process_frames v bufs = Inr (printed, v')
      \<and> map fst printed = [frame_num v + 1..frame_num v + int (length bufs)]
      \<and> frame_num v' = frame_num v + int (length bufs)"
proof (induction bufs arbitrary: v)
  case Nil
  then show ?case by simp
next
  case (Cons buf bufs)
  then have b: "frame_fits v buf" and bs: "list_all (frame_fits v) bufs" by simp_all
  from frame_fits_step [OF b] obtain c where
    t: "gst_videocrc_transform_frame_ip v buf = Inr (GST_FLOW_OK, (frame_num v + 1, c), emitted v c)"
    by blast
  have "list_all (frame_fits (emitted v c)) bufs"
    using bs by (simp add: frame_fits_emitted [abs_def])
  from Cons.IH [OF this] obtain printed v' where
    p: "process_frames (emitted v c) bufs = Inr (printed, v')"
    "map fst printed = [frame_num v + 1 + 1..frame_num v + 1 + int (length bufs)]"
    "frame_num v' = frame_num v + 1 + int (length bufs)"
    by auto
  have u: "[frame_num v + 1..frame_num v + int (length (buf # bufs))] =
        (frame_num v + 1) # [frame_num v + 1 + 1..frame_num v + 1 + int (length bufs)]"
    using upto_rec1 [of "frame_num v + 1" "frame_num v + int (length (buf # bufs))"]
    by (simp add: add.commute add.left_commute)
  show ?case unfolding u by (simp add: t p)
qed

text \<open>
  Claim C9. Let every frame of a sequence be one the instance can process: a frame without
  hardware-buffer metadata of fewer than \<open>2^31\<close> bytes, or a hardware-backed frame on a
  geometry in range whose mapped view holds the padded frame, or whose mapping failed while
  the traversal reads no byte. Then, from a freshly reset instance, processing the N frames
  one after the other returns for every frame and prints records whose frame indices are
  exactly 1, 2, ..., N in this order, and leaves the counter at N: each per-frame step
  increments the counter by one before it prints.
\<close>

theorem frame_indices:
  assumes "list_all (frame_fits v) bufs"
  shows "\<exists>printed v'. process_frames (gst_videocrc_reset v) bufs = Inr (printed, v')
           \<and> map fst printed = [1..int (length bufs)] \<and> frame_num v' = int (length bufs)"
proof -
  have "list_all (frame_fits (gst_videocrc_reset v)) bufs"
    using assms by (simp add: frame_fits_reset [abs_def])
  from process_frames_indices [OF this] show ?thesis by (simp add: gst_videocrc_reset_def)
qed

text \<open>
  Three frames after a 2x2 negotiation: an empty frame on the linear path, the hardware-backed
  frame of zero bytes, and the single byte \<open>0x41\<close> on the linear path.
\<close>

lemma ion_checksum_geometry:
  "crc32bit_table a = crc32bit_table b \<Longrightarrow> width a = width b \<Longrightarrow> height a = height b \<Longrightarrow>
   stride_w a = stride_w b \<Longrightarrow> stride_h a = stride_h b \<Longrightarrow> ion_checksum a p = ion_checksum b p"
  by (simp add: ion_checksum_def)

lemma reset_simps:
  "frame_num (gst_videocrc_reset v) = 0"
  "crc32bit_table (gst_videocrc_reset v) = crc32bit_table v"
  "width (gst_videocrc_reset v) = width v" "height (gst_videocrc_reset v) = height v"
  "stride_w (gst_videocrc_reset v) = stride_w v" "stride_h (gst_videocrc_reset v) = stride_h v"
  by (simp_all add: gst_videocrc_reset_def)

lemma linear_frame_simps:
  "ion_meta (linear_frame d) = None" "map_data (linear_frame d) = d"
  by (simp_all add: linear_frame_def)

lemma linear_nil: "linear_crc T [] = 0xFFFFFFFF"
  by (simp add: linear_crc_def)

lemma linear_A:
  assumes "crc32bit_table v = crc32bit_table (negotiated 2 2)"
  shows "linear_crc (crc32bit_table v) [0x41] = 0xCFB8923F"
proof -
  have p: "unat (linear_pos 0 0x41) = 65" by (simp add: linear_pos_def)
  have "linear_update (crc32bit_table v) 0 0x41 = table_entry_spec 0x04C11DB7 65"
    by (simp add: linear_update_def p assms negotiated_table)
  also have "\<dots> = 0x30476DC0"
    by (simp add: table_entry_spec_def funpow8 remainder_step_def)
  finally have u: "linear_update (crc32bit_table v) 0 0x41 = 0x30476DC0" .
  show ?thesis by (simp add: linear_crc_def u)
qed

lemma three_frames:
  "process_frames (gst_videocrc_reset (negotiated 2 2))
       [linear_frame [], zero_frame, linear_frame [0x41]] =
     Inr ([(1, 0xFFFFFFFF), (2, 0xB1402436), (3, 0xCFB8923F)],
          emitted (emitted (emitted (gst_videocrc_reset (negotiated 2 2)) 0xFFFFFFFF) 0xB1402436)
            0xCFB8923F)"
proof -
  let ?v0 = "gst_videocrc_reset (negotiated 2 2)"
  let ?v1 = "emitted ?v0 0xFFFFFFFF"
  let ?v2 = "emitted ?v1 0xB1402436"
  have t1: "gst_videocrc_transform_frame_ip ?v0 (linear_frame []) =
      Inr (GST_FLOW_OK, (1, 0xFFFFFFFF), ?v1)"
    using transform_linear [of "linear_frame []" ?v0]
    by (simp add: linear_frame_simps linear_nil reset_simps)
  have m: "ion_meta zero_frame = Some \<lparr>ion_fd = 3, ion_size = 6144, ion_offset = 0\<rparr>"
    by (simp add: zero_frame_def)
  have "ion_checksum ?v1 (mmap_result zero_frame) =
      ion_checksum (negotiated 2 2) (mmap_result zero_frame)"
    by (rule ion_checksum_geometry) (simp_all add: reset_simps)
  also have "\<dots> = Inr \<lparr>CRC = 0xB1402436,
          reads = [(Luma, 0), (Luma, 1), (Luma, 128), (Luma, 129), (Cb, 4096), (Cr, 4097)]\<rparr>"
    using run_2x2 by (simp add: zero_frame_def)
  finally have t2: "gst_videocrc_transform_frame_ip ?v1 zero_frame =
      Inr (GST_FLOW_OK, (2, 0xB1402436), ?v2)"
    using transform_ion [OF m, of ?v1] by (simp add: reset_simps)
  have a: "linear_crc (crc32bit_table (negotiated 2 2)) [0x41] = 0xCFB8923F"
    by (rule linear_A) (rule refl)
  have t3: "gst_videocrc_transform_frame_ip ?v2 (linear_frame [0x41]) =
      Inr (GST_FLOW_OK, (3, 0xCFB8923F), emitted ?v2 0xCFB8923F)"
    using transform_linear [of "linear_frame [0x41]" ?v2]
    by (simp add: linear_frame_simps a reset_simps)
  show ?thesis by (simp add: t1 t2 t3)
qed

text \<open>
  The three frames are processed, the hardware-backed one included, and their records carry
  the indices 1, 2 and 3.
\<close>

theorem frame_indices_witness:
  "list_all (frame_fits (negotiated 2 2)) [linear_frame [], zero_frame, linear_frame [0x41]]
   \<and> (\<exists>printed v'.
         process_frames (gst_videocrc_reset (negotiated 2 2))
           [linear_frame [], zero_frame, linear_frame [0x41]] = Inr (printed, v')
         \<and> map fst printed = [1, 2, 3] \<and> frame_num v' = 3)
   \<and> map_sum id fst
       (process_frames (gst_videocrc_reset (negotiated 2 2))
          [linear_frame [], zero_frame, linear_frame [0x41]])
       = Inr [(1, 0xFFFFFFFF), (2, 0xB1402436), (3, 0xCFB8923F)]"
proof -
  have h: "list_all (frame_fits (negotiated 2 2)) [linear_frame [], zero_frame, linear_frame [0x41]]"
    by (simp add: frame_fits_def linear_frame_simps zero_frame_def fits_2x2)
  have u: "[1..3] = [1, 2, 3 :: int]"
    by code_simp
  have n: "int (length [linear_frame [], zero_frame, linear_frame [0x41]]) = 3" by simp
  note c = frame_indices [OF h, unfolded n u]
  have e: "map_sum id fst
       (process_frames (gst_videocrc_reset (negotiated 2 2))
          [linear_frame [], zero_frame, linear_frame [0x41]])
       = Inr [(1, 0xFFFFFFFF), (2, 0xB1402436), (3, 0xCFB8923F)]"
    unfolding three_frames by simp
  show ?thesis by (intro conjI h c e)
qed

end
